theory Spec2Isabelle
  imports Complex_Main "HOL-Library.Word" "HOL-Library.Log_Nat"
begin

section \<open>Data model (cache/types.ts, config/constants.ts)\<close>

text \<open>
  Objects of type CacheElement live in a store indexed by references; a JavaScript
  object reference is a natural number, \<open>null\<close> is \<open>None\<close>.  A string is the list of
  the bytes of its UTF-8 encoding, so that \<open>Buffer.byteLength\<close> is the length of the
  list.  A Buffer is a list of bytes.
\<close>

type_synonym ref = nat
type_synonym Buffer = "8 word list"

record CacheElement =
  timestamp :: string
  data :: Buffer
  length_el :: nat
  url :: string
  lruTimeTrack :: nat
  next_el :: "ref option"
  prev_el :: "ref option"

definition byteLength :: "string \<Rightarrow> nat" where
  "byteLength u = length u"

definition CACHE_SIZE :: int where
  "CACHE_SIZE = 200 * 1024 * 1024"

definition MAX_ELEMENT_SIZE :: int where
  "MAX_ELEMENT_SIZE = 10 * 1024 * 1024"

section \<open>The cache (cache/LRUCache.ts)\<close>

text \<open>
  The fields of class LRUCache.  \<open>store\<close> holds the CacheElement objects allocated so
  far and \<open>nextRef\<close> is the next unused reference; \<open>cacheMap\<close> maps a key to the
  reference of its element, as the JavaScript Map holds the object itself.
  Every public method runs under \<open>lock\<close>, which chains it behind the previous one: the
  methods are modelled as atomic state transformers.
\<close>

record LRUCache =
  store :: "ref \<Rightarrow> CacheElement"
  nextRef :: ref
  head :: "ref option"
  tail :: "ref option"
  cacheMap :: "string \<rightharpoonup> ref"
  cacheSize :: int
  maxSize :: int
  maxElementSize :: int
  hits :: nat
  misses :: nat

definition blank :: CacheElement where
  "blank = \<lparr>timestamp = [], data = [], length_el = 0, url = [], lruTimeTrack = 0,
     next_el = None, prev_el = None\<rparr>"

text \<open>The constructor, with the two limits it reads from CONFIG as parameters.\<close>

definition newCache :: "int \<Rightarrow> int \<Rightarrow> LRUCache" where
  "newCache maxS maxE =
     \<lparr>store = (\<lambda>_. blank), nextRef = 0, head = None, tail = None, cacheMap = Map.empty,
      cacheSize = 0, maxSize = maxS, maxElementSize = maxE, hits = 0, misses = 0\<rparr>"

definition set_next :: "ref \<Rightarrow> ref option \<Rightarrow> LRUCache \<Rightarrow> LRUCache" where
  "set_next r v s = s\<lparr>store := (store s)(r := (store s r)\<lparr>next_el := v\<rparr>)\<rparr>"

definition set_prev :: "ref \<Rightarrow> ref option \<Rightarrow> LRUCache \<Rightarrow> LRUCache" where
  "set_prev r v s = s\<lparr>store := (store s)(r := (store s r)\<lparr>prev_el := v\<rparr>)\<rparr>"

text \<open>The size that \<open>add\<close> and \<open>removeLRU\<close> account for an element.\<close>

definition accounted :: "CacheElement \<Rightarrow> int" where
  "accounted e = int (length_el e) + int (byteLength (url e))"

text \<open>
  Number to string, for an integer below \<open>10^21\<close> in absolute value (above, JavaScript
  prints an exponent): the decimal digits, after a minus sign for a negative number.
\<close>

definition digit :: "nat \<Rightarrow> char" where
  "digit n = char_of (48 + n)"

fun decimal :: "nat \<Rightarrow> string" where
  "decimal n = (if n < 10 then [digit n] else decimal (n div 10) @ [digit (n mod 10)])"

declare decimal.simps [simp del]

definition numberToString :: "int \<Rightarrow> string" where
  "numberToString i = (if i < 0 then ''-'' @ decimal (nat (- i)) else decimal (nat i))"

text \<open>
  The arithmetic of JavaScript numbers (IEEE 754 binary64).  A number is the rational
  it stands for; \<open>fl x\<close> is the number nearest to \<open>x\<close>, a multiple of
  \<open>2 ^ (e - 52)\<close> where \<open>2 ^ e \<le> |x| < 2 ^ (e + 1)\<close>, ties going to the even
  multiple.  This is the result of an operation whose exact result is \<open>x\<close>, as long as
  \<open>x\<close> is in the normal range, as the quotients and products of logStats are.  The
  counters are numbers too: they are exact below \<open>2 ^ 53\<close>.
\<close>

definition roundTiesToEven :: "rat \<Rightarrow> int" where
  "roundTiesToEven y =
     (let f = \<lfloor>y\<rfloor>; r = y - of_int f
      in if r < 1 / 2 then f else if 1 / 2 < r then f + 1 else if even f then f else f + 1)"

definition expo :: "rat \<Rightarrow> int" where
  "expo x =
     (let (p, q) = quotient_of x; d = bitlen p - bitlen q
      in if of_int p < of_int q * (2 :: rat) powi d then d - 1 else d)"

definition fl :: "rat \<Rightarrow> rat" where
  "fl x =
     (if x = 0 then 0
      else let u = 2 powi (expo \<bar>x\<bar> - 52) in of_int (roundTiesToEven (x / u)) * u)"

text \<open>
  \<open>Number.prototype.toFixed\<close> for a number below \<open>10^21\<close> in absolute value: \<open>n\<close> is the
  integer for which \<open>n / 10^f\<close> is nearest to the number, the larger one of two; its
  digits are padded with zeros to \<open>f + 1\<close> digits and the point goes before the last
  \<open>f\<close> digits.
\<close>

definition toFixed :: "nat \<Rightarrow> rat \<Rightarrow> string" where
  "toFixed f x =
     (let s = (if x < 0 then ''-'' else []);
          n = nat \<lfloor>\<bar>x\<bar> * 10 ^ f + 1 / 2\<rfloor>;
          m = decimal n
      in if f = 0 then s @ m
         else let m' = (if length m \<le> f then replicate (f + 1 - length m) CHR ''0'' @ m else m);
                  k = length m'
              in s @ take (k - f) m' @ ''.'' @ drop (k - f) m')"

text \<open>Logger.info(message): the line written to the console.\<close>

definition Logger_info :: "string \<Rightarrow> string" where
  "Logger_info message = ''[INFO] '' @ message"

text \<open>logStats: the constant \<open>hitRate\<close>, from \<open>this.hits\<close> and \<open>this.misses\<close>, and the
  line that is logged; the cache is returned as it was.\<close>

definition hitRate :: "nat \<Rightarrow> nat \<Rightarrow> string" where
  "hitRate h m =
     (if h + m > 0 then toFixed 2 (fl (fl (of_nat h / of_nat (h + m)) * 100)) else ''0.00'')"

definition logStats :: "LRUCache \<Rightarrow> string \<times> LRUCache" where
  "logStats s =
     (Logger_info (''Cache Stats - Size: '' @ numberToString (cacheSize s) @
        '' bytes, Items: '' @ decimal (card (dom (cacheMap s))) @
        '', Hit Rate: '' @ hitRate (hits s) (misses s) @
        ''%, Hits: '' @ decimal (hits s) @ '', Misses: '' @ decimal (misses s)), s)"

text \<open>The number that a decimal numeral with a point denotes.\<close>

definition natOfDigits :: "string \<Rightarrow> nat" where
  "natOfDigits cs = foldl (\<lambda>a c. 10 * a + (of_char c - 48)) 0 cs"

definition decimalValue :: "string \<Rightarrow> rat" where
  "decimalValue cs =
     (let a = takeWhile (\<lambda>c. c \<noteq> CHR ''.'') cs; b = drop (Suc (length a)) cs
      in of_nat (natOfDigits a) + of_nat (natOfDigits b) / 10 ^ length b)"

definition moveToFront :: "ref \<Rightarrow> LRUCache \<Rightarrow> LRUCache" where
  "moveToFront element s =
     (if head s = Some element then s
      else
        let s1 = (case prev_el (store s element) of
                    Some p \<Rightarrow> set_next p (next_el (store s element)) s
                  | None \<Rightarrow> s);
            s2 = (case next_el (store s1 element) of
                    Some n \<Rightarrow> set_prev n (prev_el (store s1 element)) s1
                  | None \<Rightarrow> s1);
            s3 = (if tail s2 = Some element
                  then s2\<lparr>tail := prev_el (store s2 element)\<rparr> else s2);
            s4 = set_next element (head s3) s3;
            s5 = set_prev element None s4;
            s6 = (case head s5 of
                    Some h \<Rightarrow> set_prev h (Some element) s5
                  | None \<Rightarrow> s5);
            s7 = s6\<lparr>head := Some element\<rparr>
        in (if tail s7 = None then s7\<lparr>tail := Some element\<rparr> else s7))"

text \<open>find(url); \<open>now\<close> is the value of \<open>Date.now()\<close>.\<close>

definition find_c :: "string \<Rightarrow> nat \<Rightarrow> LRUCache \<Rightarrow> ref option \<times> LRUCache" where
  "find_c u now s =
     (case cacheMap s u of
        Some element \<Rightarrow>
          let s1 = s\<lparr>hits := hits s + 1\<rparr>;
              s2 = s1\<lparr>store := (store s1)(element := (store s1 element)\<lparr>lruTimeTrack := now\<rparr>)\<rparr>
          in (Some element, moveToFront element s2)
      | None \<Rightarrow> (None, s\<lparr>misses := misses s + 1\<rparr>))"

definition removeLRU :: "LRUCache \<Rightarrow> LRUCache" where
  "removeLRU s =
     (case tail s of
        None \<Rightarrow> s
      | Some lruElement \<Rightarrow>
          let s1 = s\<lparr>tail := prev_el (store s lruElement)\<rparr>;
              s2 = (case tail s1 of
                      Some t \<Rightarrow> set_next t None s1
                    | None \<Rightarrow> s1\<lparr>head := None\<rparr>);
              s3 = s2\<lparr>cacheMap := (cacheMap s2)(url (store s2 lruElement) := None)\<rparr>
          in s3\<lparr>cacheSize := cacheSize s3 - accounted (store s3 lruElement)\<rparr>)"

text \<open>The loop \<open>while (cacheSize + elementSize > maxSize) removeLRU()\<close> of \<open>add\<close>.
  \<open>None\<close> is a loop that never ends.\<close>

partial_function (option) ensureSpace :: "int \<Rightarrow> LRUCache \<Rightarrow> LRUCache option" where
  "ensureSpace elementSize s =
     (if cacheSize s + elementSize > maxSize s
      then ensureSpace elementSize (removeLRU s)
      else Some s)"

text \<open>The statements of \<open>add\<close> before the loop: the size check has passed, an existing
  entry for the key is taken out of the map and of the size.\<close>

definition removeExisting :: "string \<Rightarrow> LRUCache \<Rightarrow> LRUCache" where
  "removeExisting u s =
     (case cacheMap s u of
        Some existing \<Rightarrow>
          s\<lparr>cacheSize := cacheSize s - accounted (store s existing),
            cacheMap := (cacheMap s)(u := None)\<rparr>
      | None \<Rightarrow> s)"

text \<open>The statements of \<open>add\<close> after the loop: the new element is allocated, entered
  in the map and linked in front.\<close>

definition insertFront :: "Buffer \<Rightarrow> string \<Rightarrow> nat \<Rightarrow> string \<Rightarrow> LRUCache \<Rightarrow> LRUCache" where
  "insertFront d u now stamp s =
     (let element = nextRef s;
          s1 = s\<lparr>store := (store s)(element :=
                   \<lparr>timestamp = stamp, data = d, length_el = length d, url = u,
                    lruTimeTrack = now, next_el = None, prev_el = None\<rparr>),
                 nextRef := Suc element\<rparr>;
          s2 = s1\<lparr>cacheMap := (cacheMap s1)(u \<mapsto> element)\<rparr>;
          s3 = s2\<lparr>cacheSize := cacheSize s2 + (int (length d) + int (byteLength u))\<rparr>
      in (case head s3 of
            None \<Rightarrow> s3\<lparr>head := Some element, tail := Some element\<rparr>
          | Some h \<Rightarrow>
              (set_prev h (Some element) (set_next element (head s3) s3))\<lparr>head := Some element\<rparr>))"

text \<open>add(data, url); \<open>now\<close> is \<open>Date.now()\<close> and \<open>stamp\<close> is
  \<open>new Date().toISOString()\<close>.  The result is \<open>None\<close> when the loop never ends.\<close>

definition add :: "Buffer \<Rightarrow> string \<Rightarrow> nat \<Rightarrow> string \<Rightarrow> LRUCache \<Rightarrow> (bool \<times> LRUCache) option" where
  "add d u now stamp s =
     (let elementSize = int (length d) + int (byteLength u)
      in if elementSize > maxElementSize s then Some (False, s)
         else (case ensureSpace elementSize (removeExisting u s) of
                 None \<Rightarrow> None
               | Some s' \<Rightarrow> Some (True, insertFront d u now stamp s')))"

definition clear :: "LRUCache \<Rightarrow> LRUCache" where
  "clear s = s\<lparr>head := None, tail := None, cacheMap := Map.empty, cacheSize := 0,
               hits := 0, misses := 0\<rparr>"

section \<open>The /proxy route (ProxyServer.handleRequest, ProxyServer.makeProxyRequest)\<close>

text \<open>The test \<open>/^https?:\/\//i\<close>: the value starts with http:// or https://, letters
  compared without regard to case.\<close>

definition toLowerASCII :: "char \<Rightarrow> char" where
  "toLowerASCII c =
     (let n = (of_char c :: nat) in if 65 \<le> n \<and> n \<le> 90 then char_of (n + 32) else c)"

definition hasScheme :: "string \<Rightarrow> bool" where
  "hasScheme t =
     (map toLowerASCII (take 7 t) = ''http://'' \<or> map toLowerASCII (take 8 t) = ''https://'')"

definition formattedUrl :: "string \<Rightarrow> string" where
  "formattedUrl targetUrl = (if \<not> hasScheme targetUrl then ''http://'' @ targetUrl else targetUrl)"

datatype XCache = HIT | MISS

record Response =
  statusCode :: nat
  xCache :: XCache
  xCacheDate :: "string option"
  body :: Buffer

text \<open>What the client receives: a response (its status code, the headers X-Cache and
  X-Cache-Date, and the body), or the JSON error envelope with its status code and
  message.\<close>

datatype Outcome = Served Response | Failed nat string

text \<open>
  The case \<open>'/proxy'\<close> of handleRequest together with makeProxyRequest.  The platform's
  URL class and the origin server are parameters: \<open>href u\<close> is \<open>new URL(u).href\<close>, or
  \<open>None\<close> when the constructor throws; \<open>origin h\<close> is the outcome of the request sent
  for the URL whose href is \<open>h\<close>, an error message or the status code and the body.
  \<open>targetUrl\<close> is \<open>searchParams.get('targetUrl')\<close>.  \<open>now\<close> is the clock read by
  \<open>find\<close>; \<open>now'\<close> and \<open>stamp\<close> are the clock read by \<open>add\<close>.  The result is \<open>None\<close>
  when \<open>add\<close> never returns.
\<close>

definition proxy ::
  "(string \<Rightarrow> string option) \<Rightarrow> (string \<Rightarrow> string + nat option \<times> Buffer) \<Rightarrow>
   string option \<Rightarrow> nat \<Rightarrow> nat \<Rightarrow> string \<Rightarrow> LRUCache \<Rightarrow> (Outcome \<times> LRUCache) option" where
  "proxy href origin targetUrl now now' stamp s =
     (case targetUrl of
        None \<Rightarrow> Some (Failed 400 ''No target URL provided'', s)
      | Some t \<Rightarrow>
          if t = [] then Some (Failed 400 ''No target URL provided'', s)
          else
            let f = formattedUrl t;
                (cachedResponse, s1) = find_c f now s
            in (case cachedResponse of
                  Some e \<Rightarrow>
                    Some (Served \<lparr>statusCode = 200, xCache = HIT,
                                  xCacheDate = Some (timestamp (store s1 e)),
                                  body = data (store s1 e)\<rparr>, s1)
                | None \<Rightarrow>
                    (case href f of
                       None \<Rightarrow> Some (Failed 500 ''Invalid URL'', s1)
                     | Some h \<Rightarrow>
                         (case origin h of
                            Inl msg \<Rightarrow> Some (Failed 500 msg, s1)
                          | Inr (st, responseData) \<Rightarrow>
                              (case add responseData h now' stamp s1 of
                                 None \<Rightarrow> None
                               | Some (_, s2) \<Rightarrow>
                                   Some (Served
                                     \<lparr>statusCode = (case st of None \<Rightarrow> 200
                                                     | Some c \<Rightarrow> if c = 0 then 200 else c),
                                      xCache = MISS, xCacheDate = None,
                                      body = responseData\<rparr>, s2))))))"

section \<open>The linked list as a sequence\<close>

text \<open>
  \<open>links h p xs q\<close>: in the store \<open>h\<close> the elements \<open>xs\<close> are chained by their
  \<open>next\<close> and \<open>prev\<close> fields, the first one pointing back to \<open>p\<close> and the last one
  forward to \<open>q\<close>.  \<open>dll s xs\<close>: the list of the cache, from head to tail, is \<open>xs\<close>.
\<close>

fun first :: "ref list \<Rightarrow> ref option \<Rightarrow> ref option" where
  "first [] q = q"
| "first (x # xs) q = Some x"

fun final :: "ref option \<Rightarrow> ref list \<Rightarrow> ref option" where
  "final p [] = p"
| "final p (x # xs) = final (Some x) xs"

fun links :: "(ref \<Rightarrow> CacheElement) \<Rightarrow> ref option \<Rightarrow> ref list \<Rightarrow> ref option \<Rightarrow> bool" where
  "links h p [] q = True"
| "links h p (x # xs) q =
     (prev_el (h x) = p \<and> next_el (h x) = first xs q \<and> links h (Some x) xs q)"

definition dll :: "LRUCache \<Rightarrow> ref list \<Rightarrow> bool" where
  "dll s xs =
     (distinct xs \<and> links (store s) None xs None \<and>
      head s = first xs None \<and> tail s = final None xs)"

text \<open>Two states that differ at most in the links of the list.\<close>

definition relinked :: "LRUCache \<Rightarrow> LRUCache \<Rightarrow> bool" where
  "relinked s s' =
     (nextRef s' = nextRef s \<and> cacheMap s' = cacheMap s \<and> cacheSize s' = cacheSize s \<and>
      maxSize s' = maxSize s \<and> maxElementSize s' = maxElementSize s \<and>
      hits s' = hits s \<and> misses s' = misses s \<and>
      (\<forall>r. url (store s' r) = url (store s r) \<and> data (store s' r) = data (store s r) \<and>
           length_el (store s' r) = length_el (store s r) \<and>
           timestamp (store s' r) = timestamp (store s r) \<and>
           lruTimeTrack (store s' r) = lruTimeTrack (store s r)))"

definition listBytes :: "LRUCache \<Rightarrow> ref list \<Rightarrow> int" where
  "listBytes s xs = sum_list (map (\<lambda>r. accounted (store s r)) xs)"

text \<open>
  The invariants 1 to 6 of the data model, for a cache whose list is \<open>xs\<close>: the list is
  well formed (5); every element of the list is in the map under its url and every
  entry of the map is an element of the list (1); cacheSize is the sum of the
  accounted sizes (2) and at most maxSize (3); every element is within
  maxElementSize (4); head, tail and the map are empty together (6).
\<close>

definition spec_inv :: "LRUCache \<Rightarrow> ref list \<Rightarrow> bool" where
  "spec_inv s xs =
     (dll s xs \<and>
      (\<forall>r\<in>set xs. cacheMap s (url (store s r)) = Some r) \<and>
      (\<forall>k r. cacheMap s k = Some r \<longrightarrow> r \<in> set xs \<and> url (store s r) = k) \<and>
      cacheSize s = listBytes s xs \<and>
      cacheSize s \<le> maxSize s \<and>
      (\<forall>r\<in>set xs. accounted (store s r) \<le> maxElementSize s) \<and>
      (head s = None \<longleftrightarrow> tail s = None) \<and> (head s = None \<longleftrightarrow> cacheMap s = Map.empty))"

text \<open>
  What the operations do maintain: the list is well formed and holds allocated
  elements only, every entry of the map is an element of the list, and cacheSize is at
  most the sum of the accounted sizes of the list.
\<close>

definition wf_cache :: "LRUCache \<Rightarrow> ref list \<Rightarrow> bool" where
  "wf_cache s xs =
     (dll s xs \<and> (\<forall>r\<in>set xs. r < nextRef s) \<and>
      (\<forall>k r. cacheMap s k = Some r \<longrightarrow> r \<in> set xs \<and> url (store s r) = k) \<and>
      cacheSize s \<le> listBytes s xs)"

text \<open>The condition of the loop of \<open>add\<close>.\<close>

definition needsSpace :: "int \<Rightarrow> LRUCache \<Rightarrow> bool" where
  "needsSpace elementSize s = (cacheSize s + elementSize > maxSize s)"

text \<open>The states that a cache with the limits \<open>maxS\<close> and \<open>maxE\<close> can reach by its public
  methods.\<close>

inductive reachable :: "int \<Rightarrow> int \<Rightarrow> LRUCache \<Rightarrow> bool" for maxS maxE where
  r_new: "reachable maxS maxE (newCache maxS maxE)"
| r_add: "reachable maxS maxE s \<Longrightarrow> add d u now stamp s = Some (b, s') \<Longrightarrow> reachable maxS maxE s'"
| r_find: "reachable maxS maxE s \<Longrightarrow> reachable maxS maxE (snd (find_c u now s))"
| r_clear: "reachable maxS maxE s \<Longrightarrow> reachable maxS maxE (clear s)"

text \<open>The X-Cache header of the response to a request, if there is a response.\<close>

definition cacheStatus :: "(Outcome \<times> LRUCache) option \<Rightarrow> XCache option" where
  "cacheStatus res = (case res of Some (Served r, _) \<Rightarrow> Some (xCache r) | _ \<Rightarrow> None)"

definition after :: "(Outcome \<times> LRUCache) option \<Rightarrow> LRUCache \<Rightarrow> LRUCache" where
  "after res s = (case res of Some (_, s') \<Rightarrow> s' | None \<Rightarrow> s)"

section \<open>Example runs\<close>

definition payload :: "nat \<Rightarrow> Buffer" where
  "payload n = replicate n 0"

definition run_add :: "Buffer \<Rightarrow> string \<Rightarrow> nat \<Rightarrow> LRUCache \<Rightarrow> LRUCache" where
  "run_add d u now s = (case add d u now [] s of Some (_, s') \<Rightarrow> s' | None \<Rightarrow> s)"

text \<open>add(100 bytes, "k") and then add(50 bytes, "k") on an empty cache of 300 bytes.\<close>

definition once :: LRUCache where
  "once = run_add (payload 100) ''k'' 1 (newCache 300 300)"

definition twice :: LRUCache where
  "twice = run_add (payload 50) ''k'' 2 once"

text \<open>Then add(249 bytes, "b"), which evicts the tail.\<close>

definition twice_evicted :: LRUCache where
  "twice_evicted = run_add (payload 249) ''b'' 3 twice"

text \<open>The scenario of cascading eviction: three entries of 100 bytes under "a", "b"
  and "c" in a cache of 300 bytes, find("a"), and an entry of 140 bytes under "d".\<close>

definition a_only :: LRUCache where
  "a_only = run_add (payload 100) ''a'' 1 (newCache 300 300)"

definition ab :: LRUCache where
  "ab = run_add (payload 100) ''b'' 2 a_only"

definition abc :: LRUCache where
  "abc = run_add (payload 100) ''c'' 3 ab"

definition abc_found :: "ref option \<times> LRUCache" where
  "abc_found = find_c ''a'' 4 abc"

definition abcd :: LRUCache where
  "abcd = run_add (payload 140) ''d'' 5 (snd abc_found)"

text \<open>On the cache that holds "a" and "b", find("x") misses and find("a") hits.\<close>

definition hit_miss :: LRUCache where
  "hit_miss = snd (find_c ''a'' 4 (snd (find_c ''x'' 3 ab)))"

text \<open>
  Requests for http://example.test/y and for example.test against an empty cache of
  300 bytes.  The table
  gives \<open>new URL(u).href\<close> for the URLs of the examples only: a URL with a path is its
  own href, a URL without a path gets the path \<open>/\<close>.  One origin answers with 2 bytes,
  the other with 400 bytes.
\<close>

definition href_example :: "string \<Rightarrow> string option" where
  "href_example u =
     (if u = ''http://example.test/y'' then Some ''http://example.test/y''
      else if u = ''http://example.test'' then Some ''http://example.test/''
      else None)"

definition origin_ok :: "string \<Rightarrow> string + nat option \<times> Buffer" where
  "origin_ok h = Inr (Some 200, payload 2)"

definition origin_big :: "string \<Rightarrow> string + nat option \<times> Buffer" where
  "origin_big h = Inr (Some 200, payload 400)"

definition first_request :: "(Outcome \<times> LRUCache) option" where
  "first_request =
     proxy href_example origin_ok (Some ''http://example.test/y'') 1 2 [] (newCache 300 300)"

definition first_request_root :: "(Outcome \<times> LRUCache) option" where
  "first_request_root =
     proxy href_example origin_ok (Some ''example.test'') 1 2 [] (newCache 300 300)"

definition second_request_root :: "(Outcome \<times> LRUCache) option" where
  "second_request_root =
     proxy href_example origin_ok (Some ''example.test'') 3 4 []
       (after first_request_root (newCache 300 300))"

definition first_request_big :: "(Outcome \<times> LRUCache) option" where
  "first_request_big =
     proxy href_example origin_big (Some ''http://example.test/y'') 1 2 [] (newCache 300 300)"

text \<open>The same table with the href of http://example.test/y/, the cache after the
  first request for http://example.test/y, and a request for http://example.test/y/
  against it.\<close>

definition href_example_slash :: "string \<Rightarrow> string option" where
  "href_example_slash u =
     (if u = ''http://example.test/y/'' then Some ''http://example.test/y/'' else href_example u)"

definition holding_y :: LRUCache where
  "holding_y = after first_request (newCache 300 300)"

definition slash_request :: "(Outcome \<times> LRUCache) option" where
  "slash_request =
     proxy href_example_slash origin_ok (Some ''http://example.test/y/'') 3 4 [] holding_y"

section \<open>Evaluation of the examples\<close>

lemmas run_defs = once_def a_only_def ab_def run_add_def add_def removeExisting_def
  insertFront_def removeLRU_def
  find_c_def moveToFront_def set_next_def set_prev_def accounted_def byteLength_def
  newCache_def Let_def payload_def ensureSpace.simps

lemmas proxy_defs = proxy_def cacheStatus_def after_def href_example_def origin_ok_def
  origin_big_def

lemma formattedUrl_root: "formattedUrl ''example.test'' = ''http://example.test''"
  by code_simp

lemma formattedUrl_plain: "formattedUrl ''example.test/y'' = ''http://example.test/y''"
  by code_simp

lemma formattedUrl_slash: "formattedUrl ''http://example.test/y/'' = ''http://example.test/y/''"
  by code_simp

lemma formattedUrl_y: "formattedUrl ''http://example.test/y'' = ''http://example.test/y''"
  by code_simp

section \<open>Chains of links\<close>

lemma first_append [simp]: "first (xs @ ys) q = first xs (first ys q)"
  by (cases xs) simp_all

lemma final_append [simp]: "final p (xs @ ys) = final (final p xs) ys"
  by (induction xs arbitrary: p) simp_all

lemma final_last: "xs \<noteq> [] \<Longrightarrow> final p xs = Some (last xs)"
  by (induction xs arbitrary: p) auto

lemma final_cases:
  obtains "xs = []" "final p xs = p"
  | "xs \<noteq> []" "final p xs = Some (last xs)" "last xs \<in> set xs"
  by (cases "xs = []") (simp_all add: final_last)

lemma links_append:
  "links h p (xs @ ys) q = (links h p xs (first ys q) \<and> links h (final p xs) ys q)"
  by (induction xs arbitrary: p) auto

lemma links_cong:
  "links h p xs q \<Longrightarrow>
   (\<forall>x\<in>set xs. prev_el (h' x) = prev_el (h x) \<and> next_el (h' x) = next_el (h x)) \<Longrightarrow>
   links h' p xs q"
  by (induction xs arbitrary: p) auto

lemma links_retarget_last:
  assumes "links h p (ys @ [t]) q" and "t \<notin> set ys"
    and "\<forall>x\<in>set ys. prev_el (h' x) = prev_el (h x) \<and> next_el (h' x) = next_el (h x)"
    and "prev_el (h' t) = prev_el (h t)" and "next_el (h' t) = q'"
  shows "links h' p (ys @ [t]) q'"
proof -
  from assms(1) have a: "links h p ys (Some t)" and b: "prev_el (h t) = final p ys"
    by (simp_all add: links_append)
  from links_cong [OF a assms(3)] b assms(4,5) show ?thesis
    by (simp add: links_append)
qed

lemma links_retarget_first:
  assumes "links h p (a # ys) q" and "a \<notin> set ys"
    and "\<forall>x\<in>set ys. prev_el (h' x) = prev_el (h x) \<and> next_el (h' x) = next_el (h x)"
    and "next_el (h' a) = next_el (h a)" and "prev_el (h' a) = p'"
  shows "links h' p' (a # ys) q"
proof -
  from assms(1) have a: "links h (Some a) ys q" and b: "next_el (h a) = first ys q"
    by simp_all
  from links_cong [OF a assms(3)] b assms(4,5) show ?thesis
    by simp
qed

lemma links_retarget:
  "links h p xs q \<Longrightarrow> xs \<noteq> [] \<Longrightarrow> distinct xs \<Longrightarrow>
   (\<forall>x\<in>set xs. x \<noteq> hd xs \<longrightarrow> prev_el (h' x) = prev_el (h x)) \<Longrightarrow>
   (\<forall>x\<in>set xs. x \<noteq> last xs \<longrightarrow> next_el (h' x) = next_el (h x)) \<Longrightarrow>
   prev_el (h' (hd xs)) = p' \<Longrightarrow> next_el (h' (last xs)) = q' \<Longrightarrow>
   links h' p' xs q'"
proof (induction xs arbitrary: p p')
  case Nil
  then show ?case by simp
next
  case (Cons x xs)
  show ?case
  proof (cases xs)
    case Nil
    with Cons.prems show ?thesis by simp
  next
    case tl: (Cons y ys)
    have ne: "xs \<noteq> []" using tl by simp
    have xl: "x \<noteq> last (x # xs)" using Cons.prems(3) ne by auto
    have "links h' (Some x) xs q'"
    proof (rule Cons.IH)
      show "links h (Some x) xs q" using Cons.prems(1) by simp
      show "xs \<noteq> []" by (rule ne)
      show "distinct xs" using Cons.prems(3) by simp
      show "\<forall>z\<in>set xs. z \<noteq> hd xs \<longrightarrow> prev_el (h' z) = prev_el (h z)"
        using Cons.prems(3,4) by auto
      show "\<forall>z\<in>set xs. z \<noteq> last xs \<longrightarrow> next_el (h' z) = next_el (h z)"
        using Cons.prems(5) ne by auto
      show "prev_el (h' (hd xs)) = Some x"
        using Cons.prems(1,3,4) tl by auto
      show "next_el (h' (last xs)) = q'" using Cons.prems(7) ne by simp
    qed
    moreover have "next_el (h' x) = Some y"
      using Cons.prems(1,5) xl tl by auto
    ultimately show ?thesis using Cons.prems(6) tl by simp
  qed
qed

lemma links_unique:
  "links h p xs None \<Longrightarrow> links h p ys None \<Longrightarrow> first xs None = first ys None \<Longrightarrow> xs = ys"
proof (induction xs arbitrary: ys p)
  case Nil
  then show ?case by (cases ys) simp_all
next
  case (Cons x xs)
  then obtain y ys' where ys: "ys = y # ys'" by (cases ys) auto
  with Cons.prems have xy: "x = y" by simp
  have "xs = ys'"
    using Cons.prems ys xy by (intro Cons.IH [of "Some x"]) auto
  then show ?case using ys xy by simp
qed

lemma dll_unique: "dll s xs \<Longrightarrow> dll s ys \<Longrightarrow> xs = ys"
  using links_unique [of "store s" None xs ys] by (simp add: dll_def)

section \<open>removeLRU on a well-formed list\<close>

lemma removeLRU_fields [simp]:
  "nextRef (removeLRU s) = nextRef s"
  "maxSize (removeLRU s) = maxSize s"
  "maxElementSize (removeLRU s) = maxElementSize s"
  "hits (removeLRU s) = hits s"
  "misses (removeLRU s) = misses s"
  by (auto simp: removeLRU_def set_next_def Let_def split: option.splits)

lemma removeLRU_payload [simp]:
  "url (store (removeLRU s) r) = url (store s r)"
  "data (store (removeLRU s) r) = data (store s r)"
  "length_el (store (removeLRU s) r) = length_el (store s r)"
  "timestamp (store (removeLRU s) r) = timestamp (store s r)"
  "lruTimeTrack (store (removeLRU s) r) = lruTimeTrack (store s r)"
  by (auto simp: removeLRU_def set_next_def Let_def split: option.splits)

lemma removeLRU_accounted [simp]:
  "accounted (store (removeLRU s) r) = accounted (store s r)"
  by (simp add: accounted_def)

lemma removeLRU_listBytes [simp]: "listBytes (removeLRU s) xs = listBytes s xs"
  by (simp add: listBytes_def)

lemma removeLRU_tail:
  assumes "tail s = Some l"
  shows "cacheSize (removeLRU s) = cacheSize s - accounted (store s l)"
    and "cacheMap (removeLRU s) = (cacheMap s)(url (store s l) := None)"
  using assms
  by (auto simp: removeLRU_def set_next_def Let_def accounted_def split: option.splits)

lemma removeLRU_dll:
  assumes "dll s (xs @ [l])"
  shows "dll (removeLRU s) xs"
proof (cases xs rule: rev_cases)
  case Nil
  with assms show ?thesis
    by (simp add: dll_def removeLRU_def Let_def)
next
  case (snoc ys t)
  from assms have d: "distinct (ys @ [t, l])"
    and lk: "links (store s) None ((ys @ [t]) @ [l]) None"
    and hs: "head s = first ys (Some t)" and ts: "tail s = Some l"
    by (simp_all add: dll_def snoc)
  from lk have pl: "prev_el (store s l) = Some t"
    and seg: "links (store s) None (ys @ [t]) (Some l)"
    unfolding links_append [of _ _ "ys @ [t]"] by simp_all
  have st: "store (removeLRU s) = (store s)(t := (store s t)\<lparr>next_el := None\<rparr>)"
    "head (removeLRU s) = head s" "tail (removeLRU s) = Some t"
    using ts pl by (simp_all add: removeLRU_def Let_def set_next_def)
  have "links (store (removeLRU s)) None (ys @ [t]) None"
    using d by (intro links_retarget_last [OF seg]) (auto simp: st)
  then show ?thesis using d hs
    by (simp add: dll_def snoc st)
qed

section \<open>The new element in front\<close>

lemma insertFront_dll:
  assumes "dll s xs" and "\<forall>r\<in>set xs. r < nextRef s"
  shows "dll (insertFront d u now stamp s) (nextRef s # xs)"
proof (cases xs)
  case Nil
  with assms show ?thesis
    by (simp add: dll_def insertFront_def Let_def)
next
  case (Cons a ys)
  from assms have d: "distinct (a # ys)" and lk: "links (store s) None (a # ys) None"
    and hs: "head s = Some a" and ts: "tail s = final (Some a) ys"
    and fr: "nextRef s \<noteq> a" "nextRef s \<notin> set ys"
    by (auto simp: dll_def Cons)
  let ?e = "nextRef s"
  let ?s' = "insertFront d u now stamp s"
  have st: "store ?s' = ((store s)(?e :=
       \<lparr>timestamp = stamp, data = d, length_el = length d, url = u,
        lruTimeTrack = now, next_el = Some a, prev_el = None\<rparr>))
         (a := (store s a)\<lparr>prev_el := Some ?e\<rparr>)"
    "head ?s' = Some ?e" "tail ?s' = tail s"
    using hs fr by (simp_all add: insertFront_def Let_def set_next_def set_prev_def)
  have "links (store ?s') (Some ?e) (a # ys) None"
    using d fr by (intro links_retarget_first [OF lk]) (auto simp: st)
  then show ?thesis using d fr ts
    by (simp add: dll_def Cons st)
qed

section \<open>moveToFront on a well-formed list\<close>

lemma relinked_refl: "relinked s s"
  by (simp add: relinked_def)

lemma relinked_set_next: "relinked s s' \<Longrightarrow> relinked s (set_next r v s')"
  by (simp add: relinked_def set_next_def)

lemma relinked_set_prev: "relinked s s' \<Longrightarrow> relinked s (set_prev r v s')"
  by (simp add: relinked_def set_prev_def)

lemma relinked_tail: "relinked s s' \<Longrightarrow> relinked s (s'\<lparr>tail := t\<rparr>)"
  by (simp add: relinked_def)

lemma relinked_head: "relinked s s' \<Longrightarrow> relinked s (s'\<lparr>head := t\<rparr>)"
  by (simp add: relinked_def)

lemma relinked_Let:
  "relinked s v \<Longrightarrow> (\<And>x. relinked s x \<Longrightarrow> relinked s (f x)) \<Longrightarrow> relinked s (Let v f)"
  by simp

lemma relinked_option:
  "relinked s g \<Longrightarrow> (\<And>x. relinked s (f x)) \<Longrightarrow>
   relinked s (case v of None \<Rightarrow> g | Some x \<Rightarrow> f x)"
  by (cases v) simp_all

lemma relinked_if: "relinked s a \<Longrightarrow> relinked s b \<Longrightarrow> relinked s (if c then a else b)"
  by simp

lemma moveToFront_relinked: "relinked s (moveToFront e s)"
  unfolding moveToFront_def
  by (intro relinked_if relinked_Let relinked_option relinked_set_next relinked_set_prev
        relinked_tail relinked_head relinked_refl | assumption)+

lemma moveToFront_head: "dll s (e # bs) \<Longrightarrow> moveToFront e s = s"
  by (simp add: dll_def moveToFront_def)

lemma mtf_state_nil:
  assumes hs: "head s = Some a" and ts: "tail s = Some e"
    and pe: "prev_el (store s e) = Some p" and ne: "next_el (store s e) = None"
    and neq: "a \<noteq> e" "p \<noteq> e"
  shows "moveToFront e s =
     (let h1 = (store s)(p := (store s p)\<lparr>next_el := None\<rparr>);
          h3 = h1(e := (h1 e)\<lparr>next_el := Some a, prev_el := None\<rparr>);
          h4 = h3(a := (h3 a)\<lparr>prev_el := Some e\<rparr>)
      in s\<lparr>store := h4, head := Some e, tail := Some p\<rparr>)"
  using assms by (simp add: moveToFront_def Let_def set_next_def set_prev_def)

lemma mtf_state_cons:
  assumes hs: "head s = Some a" and ts: "tail s = Some t" "t \<noteq> e"
    and pe: "prev_el (store s e) = Some p" and ne: "next_el (store s e) = Some n"
    and neq: "a \<noteq> e" "p \<noteq> e" "n \<noteq> e"
  shows "moveToFront e s =
     (let h1 = (store s)(p := (store s p)\<lparr>next_el := Some n\<rparr>);
          h2 = h1(n := (h1 n)\<lparr>prev_el := Some p\<rparr>);
          h3 = h2(e := (h2 e)\<lparr>next_el := Some a, prev_el := None\<rparr>);
          h4 = h3(a := (h3 a)\<lparr>prev_el := Some e\<rparr>)
      in s\<lparr>store := h4, head := Some e\<rparr>)"
  using assms by (simp add: moveToFront_def Let_def set_next_def set_prev_def)

lemma moveToFront_dll:
  assumes "dll s xs" and "e \<in> set xs"
  shows "dll (moveToFront e s) (e # remove1 e xs)"
proof -
  from assms(2) obtain as bs where xs: "xs = as @ e # bs" and nin: "e \<notin> set as"
    by (auto dest: split_list_first)
  have rm: "remove1 e xs = as @ bs" using nin by (simp add: xs remove1_append)
  show ?thesis
  proof (cases as)
    case Nil
    then show ?thesis using assms(1) moveToFront_head [of s e bs] by (simp add: xs)
  next
    case (Cons a as')
    define p where "p = last as"
    have asne: "as \<noteq> []" using Cons by simp
    have pin: "p \<in> set as" using asne by (simp add: p_def)
    have hda: "hd as = a" using Cons by simp
    from assms(1) have d: "distinct (as @ e # bs)"
      and lk: "links (store s) None (as @ e # bs) None"
      and hs: "head s = Some a" and ts: "tail s = final (Some e) bs"
      by (simp_all add: dll_def xs Cons)
    from lk asne have la: "links (store s) None as (Some e)"
      and pe: "prev_el (store s e) = Some p" and ne: "next_el (store s e) = first bs None"
      and lb: "links (store s) (Some e) bs None"
      by (simp_all add: links_append final_last p_def)
    have neq: "a \<noteq> e" "p \<noteq> e" using nin pin Cons by auto
    have da: "distinct as" using d by simp
    show ?thesis
    proof (cases bs)
      case Nil
      have st: "moveToFront e s =
        (let h1 = (store s)(p := (store s p)\<lparr>next_el := None\<rparr>);
             h3 = h1(e := (h1 e)\<lparr>next_el := Some a, prev_el := None\<rparr>);
             h4 = h3(a := (h3 a)\<lparr>prev_el := Some e\<rparr>)
         in s\<lparr>store := h4, head := Some e, tail := Some p\<rparr>)"
        using hs ts pe ne neq Nil by (intro mtf_state_nil) simp_all
      have "links (store (moveToFront e s)) (Some e) as None"
      proof (rule links_retarget [OF la asne da])
        show "\<forall>x\<in>set as. x \<noteq> hd as \<longrightarrow>
            prev_el (store (moveToFront e s) x) = prev_el (store s x)"
          using nin by (auto simp: st Let_def hda)
        show "\<forall>x\<in>set as. x \<noteq> last as \<longrightarrow>
            next_el (store (moveToFront e s) x) = next_el (store s x)"
          using nin by (auto simp: st Let_def p_def)
        show "prev_el (store (moveToFront e s) (hd as)) = Some e"
          by (simp add: st Let_def hda)
        show "next_el (store (moveToFront e s) (last as)) = None"
          using neq by (simp add: st Let_def p_def [symmetric])
      qed
      moreover have "prev_el (store (moveToFront e s) e) = None"
        "next_el (store (moveToFront e s) e) = Some a"
        "head (moveToFront e s) = Some e" "tail (moveToFront e s) = Some p"
        using neq by (simp_all add: st Let_def)
      ultimately show ?thesis using d asne
        by (simp add: dll_def rm Nil Cons final_last p_def)
    next
      case bs: (Cons n bs')
      have nn: "n \<noteq> e" "n \<notin> set as" "n \<notin> set bs'" using d bs by auto
      have tl: "tail s = Some (last bs)" "last bs \<noteq> e"
        using ts d bs by (auto simp: final_last)
      have st: "moveToFront e s =
        (let h1 = (store s)(p := (store s p)\<lparr>next_el := Some n\<rparr>);
             h2 = h1(n := (h1 n)\<lparr>prev_el := Some p\<rparr>);
             h3 = h2(e := (h2 e)\<lparr>next_el := Some a, prev_el := None\<rparr>);
             h4 = h3(a := (h3 a)\<lparr>prev_el := Some e\<rparr>)
         in s\<lparr>store := h4, head := Some e\<rparr>)"
        using hs tl pe ne neq nn bs by (intro mtf_state_cons) simp_all
      have "links (store (moveToFront e s)) (Some e) as (Some n)"
      proof (rule links_retarget [OF la asne da])
        show "\<forall>x\<in>set as. x \<noteq> hd as \<longrightarrow>
            prev_el (store (moveToFront e s) x) = prev_el (store s x)"
          using nin nn by (auto simp: st Let_def hda)
        show "\<forall>x\<in>set as. x \<noteq> last as \<longrightarrow>
            next_el (store (moveToFront e s) x) = next_el (store s x)"
          using nin nn by (auto simp: st Let_def p_def)
        show "prev_el (store (moveToFront e s) (hd as)) = Some e"
          by (simp add: st Let_def hda)
        show "next_el (store (moveToFront e s) (last as)) = Some n"
          using neq nn pin by (auto simp: st Let_def p_def [symmetric])
      qed
      moreover have "links (store (moveToFront e s)) (Some p) (n # bs') None"
      proof (rule links_retarget_first)
        show "links (store s) (Some e) (n # bs') None" using lb bs by simp
        show "n \<notin> set bs'" by (rule nn)
        show "\<forall>x\<in>set bs'. prev_el (store (moveToFront e s) x) = prev_el (store s x) \<and>
            next_el (store (moveToFront e s) x) = next_el (store s x)"
          using d bs pin Cons by (auto simp: st Let_def)
        show "next_el (store (moveToFront e s) n) = next_el (store s n)"
          using nn pin by (auto simp: st Let_def)
        show "prev_el (store (moveToFront e s) n) = Some p"
          using nn pin Cons by (auto simp: st Let_def)
      qed
      moreover have "prev_el (store (moveToFront e s) e) = None"
        "next_el (store (moveToFront e s) e) = Some a"
        "head (moveToFront e s) = Some e" "tail (moveToFront e s) = Some (last bs)"
        using neq tl by (simp_all add: st Let_def)
      ultimately show ?thesis using d asne bs
        by (simp add: dll_def rm Cons links_append final_last p_def)
    qed
  qed
qed

section \<open>The loop of add\<close>

lemma removeExisting_fields [simp]:
  "store (removeExisting k s) = store s"
  "head (removeExisting k s) = head s"
  "tail (removeExisting k s) = tail s"
  "nextRef (removeExisting k s) = nextRef s"
  "maxSize (removeExisting k s) = maxSize s"
  "maxElementSize (removeExisting k s) = maxElementSize s"
  "hits (removeExisting k s) = hits s"
  "misses (removeExisting k s) = misses s"
  by (simp_all add: removeExisting_def split: option.splits)

lemma removeExisting_dll [simp]: "dll (removeExisting k s) xs = dll s xs"
  by (simp add: dll_def)

lemma accounted_nonneg [simp]: "0 \<le> accounted x"
  by (simp add: accounted_def)

lemma removeExisting_cacheSize: "cacheSize (removeExisting k s) \<le> cacheSize s"
  by (simp add: removeExisting_def split: option.splits)

lemma removeExisting_map: "cacheMap (removeExisting k s) = (cacheMap s)(k := None)"
  by (auto simp: removeExisting_def split: option.splits)

lemma listBytes_nonneg: "0 \<le> listBytes s xs"
  by (induction xs) (simp_all add: listBytes_def)

lemma listBytes_snoc: "listBytes s (ys @ [l]) = listBytes s ys + accounted (store s l)"
  by (simp add: listBytes_def)

lemma removeExisting_listBytes [simp]: "listBytes (removeExisting k s) xs = listBytes s xs"
  by (simp add: listBytes_def)

lemma dll_tail_snoc: "dll s (ys @ [l]) \<Longrightarrow> tail s = Some l"
  by (simp add: dll_def)

lemma ensureSpace_run:
  "dll s xs \<Longrightarrow> cacheSize s \<le> listBytes s xs \<Longrightarrow> e \<le> maxSize s \<Longrightarrow>
   \<exists>n\<le>length xs.
      ensureSpace e s = Some ((removeLRU ^^ n) s) \<and>
      (\<forall>i<n. needsSpace e ((removeLRU ^^ i) s) \<and> tail ((removeLRU ^^ i) s) \<noteq> None) \<and>
      \<not> needsSpace e ((removeLRU ^^ n) s)"
proof (induction xs arbitrary: s rule: rev_induct)
  case Nil
  then have "\<not> needsSpace e s" by (simp add: needsSpace_def listBytes_def)
  then have "ensureSpace e s = Some ((removeLRU ^^ 0) s) \<and> \<not> needsSpace e ((removeLRU ^^ 0) s)"
    by (simp add: ensureSpace.simps needsSpace_def)
  then show ?case by auto
next
  case (snoc l ys)
  show ?case
  proof (cases "needsSpace e s")
    case False
    then have "ensureSpace e s = Some ((removeLRU ^^ 0) s) \<and> \<not> needsSpace e ((removeLRU ^^ 0) s)"
      by (simp add: ensureSpace.simps needsSpace_def)
    then show ?thesis by (intro exI [of _ 0]) simp
  next
    case True
    have tl: "tail s = Some l" using snoc.prems(1) by (rule dll_tail_snoc)
    have "\<exists>n\<le>length ys.
      ensureSpace e (removeLRU s) = Some ((removeLRU ^^ n) (removeLRU s)) \<and>
      (\<forall>i<n. needsSpace e ((removeLRU ^^ i) (removeLRU s)) \<and>
             tail ((removeLRU ^^ i) (removeLRU s)) \<noteq> None) \<and>
      \<not> needsSpace e ((removeLRU ^^ n) (removeLRU s))"
    proof (rule snoc.IH)
      show "dll (removeLRU s) ys" using snoc.prems(1) by (rule removeLRU_dll)
      show "cacheSize (removeLRU s) \<le> listBytes (removeLRU s) ys"
        using snoc.prems(2) by (simp add: removeLRU_tail [OF tl] listBytes_snoc)
      show "e \<le> maxSize (removeLRU s)" using snoc.prems(3) by simp
    qed
    then obtain n where n: "n \<le> length ys"
      "ensureSpace e (removeLRU s) = Some ((removeLRU ^^ n) (removeLRU s))"
      "\<forall>i<n. needsSpace e ((removeLRU ^^ i) (removeLRU s)) \<and>
             tail ((removeLRU ^^ i) (removeLRU s)) \<noteq> None"
      "\<not> needsSpace e ((removeLRU ^^ n) (removeLRU s))"
      by blast
    have run: "ensureSpace e s = Some ((removeLRU ^^ Suc n) s)"
      using True n(2) by (subst ensureSpace.simps) (simp add: needsSpace_def funpow_swap1)
    have steps: "needsSpace e ((removeLRU ^^ i) s) \<and> tail ((removeLRU ^^ i) s) \<noteq> None"
      if "i < Suc n" for i
    proof (cases i)
      case 0
      then show ?thesis using True tl by simp
    next
      case (Suc j)
      then show ?thesis using n(3) that by (simp add: funpow_swap1)
    qed
    have "\<not> needsSpace e ((removeLRU ^^ Suc n) s)" using n(4) by (simp add: funpow_swap1)
    with run steps n(1) show ?thesis
      by (intro exI [of _ "Suc n"]) auto
  qed
qed


lemma spec_inv_existing:
  assumes "spec_inv s xs"
  shows "cacheSize (removeExisting k s) \<le> listBytes s xs"
  using assms removeExisting_cacheSize [of k s] by (simp add: spec_inv_def)

lemma ab_spec_inv: "spec_inv ab [1, 0]"
  by (simp add: spec_inv_def dll_def listBytes_def run_defs)

section \<open>The map after add, and the status of a request\<close>

lemma dll_cong:
  assumes "dll s xs" and "head s' = head s" and "tail s' = tail s"
    and "\<forall>r. prev_el (store s' r) = prev_el (store s r) \<and> next_el (store s' r) = next_el (store s r)"
  shows "dll s' xs"
  using assms links_cong [of "store s" None xs None "store s'"] by (simp add: dll_def)

lemma removeLRU_map_None: "cacheMap s k = None \<Longrightarrow> cacheMap (removeLRU s) k = None"
  by (simp add: removeLRU_def set_next_def Let_def split: option.splits)

lemma ensureSpace_map_None:
  assumes "ensureSpace e s = Some s'"
  shows "cacheMap s k = None \<longrightarrow> cacheMap s' k = None"
proof (rule ensureSpace.raw_induct
    [where P = "\<lambda>e s s'. cacheMap s k = None \<longrightarrow> cacheMap s' k = None", OF _ assms])
  fix f :: "int \<Rightarrow> LRUCache \<Rightarrow> LRUCache option" and e s s'
  assume IH: "\<And>a b y. f a b = Some y \<Longrightarrow> cacheMap b k = None \<longrightarrow> cacheMap y k = None"
    and eq: "(if maxSize s < cacheSize s + e then f e (removeLRU s) else Some s) = Some s'"
  show "cacheMap s k = None \<longrightarrow> cacheMap s' k = None"
  proof (cases "maxSize s < cacheSize s + e")
    case True
    with eq have "f e (removeLRU s) = Some s'" by simp
    then have "cacheMap (removeLRU s) k = None \<longrightarrow> cacheMap s' k = None" by (rule IH)
    then show ?thesis by (simp add: removeLRU_map_None)
  next
    case False
    with eq show ?thesis by simp
  qed
qed

lemma insertFront_map:
  "cacheMap (insertFront d u now stamp s) = (cacheMap s)(u \<mapsto> nextRef s)"
  "data (store (insertFront d u now stamp s) (nextRef s)) = d"
  by (simp_all add: insertFront_def Let_def set_next_def set_prev_def split: option.splits)

lemma add_map:
  assumes "add d u now stamp s = Some (admitted, s1)" and "cacheMap s k = None"
  shows "admitted = (int (length d) + int (byteLength u) \<le> maxElementSize s)"
    and "admitted \<longrightarrow> (\<exists>e. cacheMap s1 u = Some e \<and> data (store s1 e) = d)"
    and "cacheMap s1 k \<noteq> None \<longleftrightarrow> k = u \<and> admitted"
proof -
  show "admitted = (int (length d) + int (byteLength u) \<le> maxElementSize s)"
    using assms(1) by (auto simp: add_def Let_def split: if_splits option.splits)
  show "admitted \<longrightarrow> (\<exists>e. cacheMap s1 u = Some e \<and> data (store s1 e) = d)"
    using assms(1) by (auto simp: add_def Let_def insertFront_map split: if_splits option.splits)
  show "cacheMap s1 k \<noteq> None \<longleftrightarrow> k = u \<and> admitted"
  proof (cases "int (length d) + int (byteLength u) > maxElementSize s")
    case True
    then show ?thesis using assms by (simp add: add_def)
  next
    case False
    then obtain s' where s': "ensureSpace (int (length d) + int (byteLength u)) (removeExisting u s) = Some s'"
      and s1: "s1 = insertFront d u now stamp s'" and adm: "admitted"
      using assms(1) by (auto simp: add_def Let_def split: option.splits)
    have "cacheMap (removeExisting u s) k = None"
      using assms(2) by (simp add: removeExisting_map)
    with ensureSpace_map_None [OF s'] have "cacheMap s' k = None" by blast
    then show ?thesis using adm by (simp add: s1 insertFront_map)
  qed
qed

lemma proxy_hit_iff:
  "t \<noteq> [] \<Longrightarrow>
   cacheStatus (proxy href origin (Some t) now now' stamp s) = Some HIT \<longleftrightarrow>
   cacheMap s (formattedUrl t) \<noteq> None"
  by (auto simp: cacheStatus_def proxy_def find_c_def Let_def
      split: option.splits sum.splits prod.splits Outcome.splits)

section \<open>What every reachable state satisfies\<close>

lemma wf_new: "wf_cache (newCache maxS maxE) []"
  by (simp add: wf_cache_def dll_def newCache_def listBytes_def)

lemma wf_clear: "wf_cache (clear s) []"
  by (simp add: wf_cache_def dll_def clear_def listBytes_def)

lemma wf_removeExisting: "wf_cache s xs \<Longrightarrow> wf_cache (removeExisting k s) xs"
  using removeExisting_cacheSize [of k s]
  by (auto simp: wf_cache_def removeExisting_map)

lemma wf_removeLRU:
  assumes "wf_cache s (ys @ [l])"
  shows "wf_cache (removeLRU s) ys"
proof -
  from assms have d: "dll s (ys @ [l])" by (simp add: wf_cache_def)
  then have tl: "tail s = Some l" by (rule dll_tail_snoc)
  have "distinct (ys @ [l])" using d by (simp add: dll_def)
  then have "l \<notin> set ys" by simp
  then show ?thesis
    using assms removeLRU_dll [OF d]
    by (auto simp: wf_cache_def removeLRU_tail [OF tl] listBytes_snoc)
qed

lemma wf_tail_None: "wf_cache s xs \<Longrightarrow> tail s = None \<Longrightarrow> xs = []"
  by (cases xs rule: rev_cases) (simp_all add: wf_cache_def dll_def)

lemma wf_step: "wf_cache s xs \<Longrightarrow> \<exists>ys. wf_cache (removeLRU s) ys"
proof (cases xs rule: rev_cases)
  case Nil
  assume "wf_cache s xs"
  with Nil have "removeLRU s = s" by (simp add: wf_cache_def dll_def removeLRU_def)
  with \<open>wf_cache s xs\<close> show ?thesis by auto
next
  case (snoc ys l)
  assume "wf_cache s xs"
  with snoc show ?thesis by (auto intro: wf_removeLRU)
qed

lemma wf_ensureSpace:
  assumes "ensureSpace e s = Some s'"
  shows "(\<exists>xs. wf_cache s xs) \<longrightarrow>
         (\<exists>ys. wf_cache s' ys) \<and> \<not> needsSpace e s' \<and> maxSize s' = maxSize s \<and>
         maxElementSize s' = maxElementSize s"
proof (rule ensureSpace.raw_induct
    [where P = "\<lambda>e s s'. (\<exists>xs. wf_cache s xs) \<longrightarrow>
         (\<exists>ys. wf_cache s' ys) \<and> \<not> needsSpace e s' \<and> maxSize s' = maxSize s \<and>
         maxElementSize s' = maxElementSize s", OF _ assms])
  fix f :: "int \<Rightarrow> LRUCache \<Rightarrow> LRUCache option" and e s s'
  assume IH: "\<And>a b y. f a b = Some y \<Longrightarrow> (\<exists>xs. wf_cache b xs) \<longrightarrow>
         (\<exists>ys. wf_cache y ys) \<and> \<not> needsSpace a y \<and> maxSize y = maxSize b \<and>
         maxElementSize y = maxElementSize b"
    and eq: "(if maxSize s < cacheSize s + e then f e (removeLRU s) else Some s) = Some s'"
  show "(\<exists>xs. wf_cache s xs) \<longrightarrow>
         (\<exists>ys. wf_cache s' ys) \<and> \<not> needsSpace e s' \<and> maxSize s' = maxSize s \<and>
         maxElementSize s' = maxElementSize s"
  proof (cases "maxSize s < cacheSize s + e")
    case True
    with eq have "f e (removeLRU s) = Some s'" by simp
    from IH [OF this] show ?thesis using wf_step by auto
  next
    case False
    with eq show ?thesis by (auto simp: needsSpace_def)
  qed
qed

lemma insertFront_fields [simp]:
  "nextRef (insertFront d u now stamp s) = Suc (nextRef s)"
  "cacheSize (insertFront d u now stamp s) = cacheSize s + (int (length d) + int (byteLength u))"
  "maxSize (insertFront d u now stamp s) = maxSize s"
  "maxElementSize (insertFront d u now stamp s) = maxElementSize s"
  "hits (insertFront d u now stamp s) = hits s"
  "misses (insertFront d u now stamp s) = misses s"
  by (simp_all add: insertFront_def Let_def set_next_def set_prev_def split: option.splits)

lemma insertFront_payload:
  "url (store (insertFront d u now stamp s) r) = (if r = nextRef s then u else url (store s r))"
  "length_el (store (insertFront d u now stamp s) r) =
     (if r = nextRef s then length d else length_el (store s r))"
  by (simp_all add: insertFront_def Let_def set_next_def set_prev_def split: option.splits)

lemma wf_insertFront:
  assumes "wf_cache s xs"
  shows "wf_cache (insertFront d u now stamp s) (nextRef s # xs)"
proof -
  from assms have d: "dll s xs" and al: "\<forall>r\<in>set xs. r < nextRef s"
    and mp: "\<forall>k r. cacheMap s k = Some r \<longrightarrow> r \<in> set xs \<and> url (store s r) = k"
    and sz: "cacheSize s \<le> listBytes s xs"
    by (simp_all add: wf_cache_def)
  have nin: "nextRef s \<notin> set xs" using al by auto
  have lb: "listBytes (insertFront d u now stamp s) xs = listBytes s xs"
    using nin unfolding listBytes_def
    by (intro arg_cong [where f = sum_list] map_cong) (auto simp: accounted_def insertFront_payload)
  have "listBytes (insertFront d u now stamp s) (nextRef s # xs) =
      int (length d) + int (byteLength u) + listBytes s xs"
    using lb by (simp add: listBytes_def accounted_def insertFront_payload)
  then show ?thesis
    using insertFront_dll [OF d al, of d u now stamp] al mp sz nin
    by (auto simp: wf_cache_def insertFront_map insertFront_payload)
qed

lemma find_c_miss: "cacheMap s u = None \<Longrightarrow> find_c u now s = (None, s\<lparr>misses := misses s + 1\<rparr>)"
  by (simp add: find_c_def)

lemma find_c_hit:
  assumes "dll s xs" and "cacheMap s u = Some e" and "e \<in> set xs"
  shows "fst (find_c u now s) = Some e"
    and "dll (snd (find_c u now s)) (e # remove1 e xs)"
    and "hits (snd (find_c u now s)) = hits s + 1"
    and "misses (snd (find_c u now s)) = misses s"
    and "lruTimeTrack (store (snd (find_c u now s)) e) = now"
    and "cacheMap (snd (find_c u now s)) = cacheMap s"
    and "cacheSize (snd (find_c u now s)) = cacheSize s"
    and "nextRef (snd (find_c u now s)) = nextRef s"
    and "maxSize (snd (find_c u now s)) = maxSize s"
    and "maxElementSize (snd (find_c u now s)) = maxElementSize s"
    and "data (store (snd (find_c u now s)) r) = data (store s r)"
    and "url (store (snd (find_c u now s)) r) = url (store s r)"
    and "length_el (store (snd (find_c u now s)) r) = length_el (store s r)"
    and "timestamp (store (snd (find_c u now s)) r) = timestamp (store s r)"
proof -
  define s2 where "s2 = s\<lparr>hits := hits s + 1,
     store := (store s)(e := (store s e)\<lparr>lruTimeTrack := now\<rparr>)\<rparr>"
  have f: "find_c u now s = (Some e, moveToFront e s2)"
    using assms(2) by (simp add: find_c_def Let_def s2_def)
  have "dll s2 xs"
    using assms(1) by (rule dll_cong) (simp_all add: s2_def)
  then have d: "dll (moveToFront e s2) (e # remove1 e xs)"
    using assms(3) by (rule moveToFront_dll)
  have r: "relinked s2 (moveToFront e s2)" by (rule moveToFront_relinked)
  show "fst (find_c u now s) = Some e" by (simp add: f)
  show "dll (snd (find_c u now s)) (e # remove1 e xs)" using d by (simp add: f)
  show "hits (snd (find_c u now s)) = hits s + 1"
    and "misses (snd (find_c u now s)) = misses s"
    and "lruTimeTrack (store (snd (find_c u now s)) e) = now"
    and "cacheMap (snd (find_c u now s)) = cacheMap s"
    and "cacheSize (snd (find_c u now s)) = cacheSize s"
    and "nextRef (snd (find_c u now s)) = nextRef s"
    and "maxSize (snd (find_c u now s)) = maxSize s"
    and "maxElementSize (snd (find_c u now s)) = maxElementSize s"
    and "data (store (snd (find_c u now s)) r) = data (store s r)"
    and "url (store (snd (find_c u now s)) r) = url (store s r)"
    and "length_el (store (snd (find_c u now s)) r) = length_el (store s r)"
    and "timestamp (store (snd (find_c u now s)) r) = timestamp (store s r)"
    using r by (simp_all add: f relinked_def s2_def)
qed

lemma listBytes_remove1:
  "e \<in> set xs \<Longrightarrow> listBytes s (e # remove1 e xs) = listBytes s xs"
  by (simp add: listBytes_def sum_list_map_remove1)

lemma wf_find:
  assumes "wf_cache s xs"
  shows "\<exists>ys. wf_cache (snd (find_c u now s)) ys"
proof (cases "cacheMap s u")
  case None
  then show ?thesis using assms
    by (auto simp: find_c_miss wf_cache_def dll_def listBytes_def intro!: exI [of _ xs])
next
  case (Some e)
  from assms have d: "dll s xs" and al: "\<forall>r\<in>set xs. r < nextRef s"
    and mp: "\<forall>k r. cacheMap s k = Some r \<longrightarrow> r \<in> set xs \<and> url (store s r) = k"
    and sz: "cacheSize s \<le> listBytes s xs"
    by (simp_all add: wf_cache_def)
  have e: "e \<in> set xs" using mp Some by blast
  note h = find_c_hit [OF d Some e, of now]
  have "listBytes (snd (find_c u now s)) (e # remove1 e xs) = listBytes s (e # remove1 e xs)"
    unfolding listBytes_def by (simp add: accounted_def h)
  then have "cacheSize (snd (find_c u now s)) \<le> listBytes (snd (find_c u now s)) (e # remove1 e xs)"
    using sz e by (simp add: h listBytes_remove1)
  moreover have "set (e # remove1 e xs) = set xs"
    using d e by (auto simp: dll_def set_remove1_eq)
  ultimately have "wf_cache (snd (find_c u now s)) (e # remove1 e xs)"
    using h(2) al mp unfolding wf_cache_def by (simp add: h)
  then show ?thesis ..
qed

lemma reachable_wf:
  "reachable maxS maxE s \<Longrightarrow>
   (\<exists>xs. wf_cache s xs) \<and> maxSize s = maxS \<and> maxElementSize s = maxE \<and>
   (0 \<le> maxS \<longrightarrow> cacheSize s \<le> maxS)"
proof (induction rule: reachable.induct)
  case r_new
  then show ?case using wf_new [of maxS maxE] by (auto simp: newCache_def)
next
  case (r_add s d u now stamp b s')
  show ?case
  proof (cases "int (length d) + int (byteLength u) > maxElementSize s")
    case True
    with r_add show ?thesis by (simp add: add_def)
  next
    case False
    then obtain s1 where s1: "ensureSpace (int (length d) + int (byteLength u)) (removeExisting u s) = Some s1"
      and s': "s' = insertFront d u now stamp s1"
      using r_add.hyps(2) by (auto simp: add_def Let_def split: option.splits)
    from r_add.IH obtain xs where "wf_cache s xs" by blast
    then have "\<exists>xs. wf_cache (removeExisting u s) xs" by (auto intro: wf_removeExisting)
    with wf_ensureSpace [OF s1] obtain ys where ys: "wf_cache s1 ys"
      and ns: "\<not> needsSpace (int (length d) + int (byteLength u)) s1"
      and mx: "maxSize s1 = maxSize s" "maxElementSize s1 = maxElementSize s"
      by auto
    have "\<exists>zs. wf_cache s' zs"
      using wf_insertFront [OF ys, of d u now stamp] unfolding s' by blast
    then show ?thesis using ns mx r_add.IH
      by (simp add: s' needsSpace_def)
  qed
next
  case (r_find s u now)
  obtain xs where xs: "wf_cache s xs" using r_find.IH by blast
  show ?case
  proof (cases "cacheMap s u")
    case None
    then show ?thesis using wf_find [OF xs, of u now] r_find.IH by (simp add: find_c_miss)
  next
    case (Some e)
    from xs have d: "dll s xs" and e: "e \<in> set xs" using Some by (auto simp: wf_cache_def)
    note h = find_c_hit [OF d Some e, of now]
    show ?thesis using wf_find [OF xs, of u now] r_find.IH by (simp add: h)
  qed
next
  case (r_clear s)
  then show ?case using wf_clear [of s] by (auto simp: clear_def)
qed

lemma reachable_add_returns:
  assumes "reachable maxS maxE s" and "maxE \<le> maxS"
  shows "\<exists>b s'. add d u now stamp s = Some (b, s')"
proof (cases "int (length d) + int (byteLength u) > maxElementSize s")
  case True
  then show ?thesis by (auto simp: add_def)
next
  case False
  from reachable_wf [OF assms(1)] obtain xs where xs: "wf_cache s xs"
    and mx: "maxSize s = maxS" "maxElementSize s = maxE" by blast
  have w: "wf_cache (removeExisting u s) xs" using xs by (rule wf_removeExisting)
  have "\<exists>n\<le>length xs. ensureSpace (int (length d) + int (byteLength u)) (removeExisting u s) =
      Some ((removeLRU ^^ n) (removeExisting u s)) \<and>
      (\<forall>i<n. needsSpace (int (length d) + int (byteLength u)) ((removeLRU ^^ i) (removeExisting u s)) \<and>
             tail ((removeLRU ^^ i) (removeExisting u s)) \<noteq> None) \<and>
      \<not> needsSpace (int (length d) + int (byteLength u)) ((removeLRU ^^ n) (removeExisting u s))"
    using w False mx assms(2) by (intro ensureSpace_run) (auto simp: wf_cache_def)
  then show ?thesis using False by (auto simp: add_def Let_def)
qed

text \<open>Two requests for example.test: the lookup key http://example.test is never in the
  map, both requests miss and both add under the href http://example.test/, so that
  the second one leaves a stale element in the list.\<close>

lemma repeated_request_keeps_stale_element:
  "cacheStatus first_request_root = Some MISS \<and> cacheStatus second_request_root = Some MISS \<and>
   dll (after second_request_root (newCache 300 300)) [1, 0] \<and>
   url (store (after second_request_root (newCache 300 300)) 0) = ''http://example.test/'' \<and>
   url (store (after second_request_root (newCache 300 300)) 1) = ''http://example.test/'' \<and>
   dom (cacheMap (after second_request_root (newCache 300 300))) = {''http://example.test/''}"
  by (simp add: second_request_root_def first_request_root_def proxy_defs formattedUrl_root
      run_defs dll_def)

section \<open>The handler's keys\<close>

lemma find_c_hit_payload:
  assumes "cacheMap s u = Some e"
  shows "fst (find_c u now s) = Some e"
    and "data (store (snd (find_c u now s)) r) = data (store s r)"
    and "timestamp (store (snd (find_c u now s)) r) = timestamp (store s r)"
proof -
  define s2 where "s2 = s\<lparr>hits := hits s + 1,
     store := (store s)(e := (store s e)\<lparr>lruTimeTrack := now\<rparr>)\<rparr>"
  have f: "find_c u now s = (Some e, moveToFront e s2)"
    using assms by (simp add: find_c_def Let_def s2_def)
  have r: "relinked s2 (moveToFront e s2)" by (rule moveToFront_relinked)
  show "fst (find_c u now s) = Some e" by (simp add: f)
  show "data (store (snd (find_c u now s)) r) = data (store s r)"
    and "timestamp (store (snd (find_c u now s)) r) = timestamp (store s r)"
    using r by (simp_all add: f relinked_def s2_def)
qed

lemma proxy_hit_serves:
  assumes "t \<noteq> []" and "cacheMap s (formattedUrl t) = Some e"
  shows "proxy href origin (Some t) now now' stamp s =
     Some (Served \<lparr>statusCode = 200, xCache = HIT,
                   xCacheDate = Some (timestamp (store s e)), body = data (store s e)\<rparr>,
           snd (find_c (formattedUrl t) now s))"
proof (cases "find_c (formattedUrl t) now s")
  case (Pair x1 x2)
  with find_c_hit_payload [OF assms(2), of now] have "x1 = Some e"
    and "data (store x2 e) = data (store s e)"
    and "timestamp (store x2 e) = timestamp (store s e)"
    by simp_all
  with Pair assms(1) show ?thesis by (simp add: proxy_def Let_def)
qed

lemma proxy_miss_adds:
  assumes "proxy href origin (Some t) now now' stamp s = Some (Served r, s1)"
    and "xCache r = MISS"
  shows "\<exists>h st responseData admitted.
     href (formattedUrl t) = Some h \<and> origin h = Inr (st, responseData) \<and>
     body r = responseData \<and>
     add responseData h now' stamp (snd (find_c (formattedUrl t) now s)) = Some (admitted, s1) \<and>
     (admitted \<longrightarrow> (\<exists>e. cacheMap s1 h = Some e \<and> data (store s1 e) = responseData))"
proof -
  let ?f = "formattedUrl t"
  let ?s' = "s\<lparr>misses := misses s + 1\<rparr>"
  have t: "t \<noteq> []" using assms(1) by (auto simp: proxy_def)
  have miss: "cacheMap s ?f = None"
    using assms t by (auto simp: proxy_def find_c_def Let_def split: option.splits)
  then have fnd: "find_c ?f now s = (None, ?s')" by (simp add: find_c_def)
  from assms(1) t fnd obtain h st responseData admitted where
    h: "href ?f = Some h" and o: "origin h = Inr (st, responseData)"
    and a: "add responseData h now' stamp ?s' = Some (admitted, s1)"
    and b: "body r = responseData"
    by (auto simp: proxy_def Let_def split: option.splits sum.splits)
  have m: "cacheMap ?s' ?f = None" using miss by simp
  have "admitted \<longrightarrow> (\<exists>e. cacheMap s1 h = Some e \<and> data (store s1 e) = responseData)"
    by (rule add_map(2) [OF a m])
  then show ?thesis using h o a b by (simp add: fnd)
qed

section \<open>The log line: decimal numerals and rounding\<close>

lemma of_char_digit: "d < 10 \<Longrightarrow> of_char (digit d) = 48 + d"
  by (simp add: digit_def)

lemma digit_0: "digit 0 = CHR ''0''"
  by code_simp

lemma digit_not_dot: "d < 10 \<Longrightarrow> digit d \<noteq> CHR ''.''"
proof
  assume "d < 10" and "digit d = CHR ''.''"
  then have "(of_char (digit d) :: nat) = of_char CHR ''.''" by simp
  with \<open>d < 10\<close> show False by (simp add: of_char_digit)
qed

lemma decimal_small: "n < 10 \<Longrightarrow> decimal n = [digit n]"
  by (simp add: decimal.simps)

lemma decimal_big: "10 \<le> n \<Longrightarrow> decimal n = decimal (n div 10) @ [digit (n mod 10)]"
  by (subst decimal.simps) simp

lemma decimal_nonempty: "decimal n \<noteq> []"
  by (subst decimal.simps) simp

lemma decimal_no_dot: "CHR ''.'' \<notin> set (decimal n)"
proof (induction n rule: decimal.induct)
  case (1 n)
  show ?case
  proof (cases "n < 10")
    case True
    then show ?thesis using digit_not_dot [of n] by (auto simp: decimal_small)
  next
    case False
    then show ?thesis using 1 digit_not_dot [of "n mod 10"] by (auto simp: decimal_big)
  qed
qed

lemma natOfDigits_snoc: "natOfDigits (cs @ [c]) = 10 * natOfDigits cs + (of_char c - 48)"
  by (simp add: natOfDigits_def)

lemma natOfDigits_decimal: "natOfDigits (decimal n) = n"
proof (induction n rule: decimal.induct)
  case (1 n)
  show ?case
  proof (cases "n < 10")
    case True
    then show ?thesis by (simp add: decimal_small natOfDigits_def of_char_digit)
  next
    case False
    then have "natOfDigits (decimal (n div 10)) = n div 10" using 1 by simp
    then show ?thesis using False
      by (simp add: decimal_big natOfDigits_snoc of_char_digit)
  qed
qed

lemma decimal_two_digits:
  "100 \<le> n \<Longrightarrow> decimal n = decimal (n div 100) @ [digit (n div 10 mod 10), digit (n mod 10)]"
proof -
  assume n: "100 \<le> n"
  then have "decimal n = decimal (n div 10) @ [digit (n mod 10)]" by (simp add: decimal_big)
  moreover have "decimal (n div 10) = decimal (n div 10 div 10) @ [digit (n div 10 mod 10)]"
    using n by (intro decimal_big) simp
  moreover have "n div 10 div 10 = n div 100" by (simp add: div_mult2_eq [symmetric])
  ultimately show ?thesis by simp
qed

lemma toFixed_2:
  assumes "0 \<le> x"
  shows "toFixed 2 x =
     decimal (nat \<lfloor>x * 100 + 1 / 2\<rfloor> div 100) @ ''.'' @
       [digit (nat \<lfloor>x * 100 + 1 / 2\<rfloor> div 10 mod 10), digit (nat \<lfloor>x * 100 + 1 / 2\<rfloor> mod 10)]"
proof -
  define n where "n = nat \<lfloor>x * 100 + 1 / 2\<rfloor>"
  define m' where "m' = (if length (decimal n) \<le> 2
     then replicate (2 + 1 - length (decimal n)) CHR ''0'' @ decimal n else decimal n)"
  have tf: "toFixed 2 x = take (length m' - 2) m' @ ''.'' @ drop (length m' - 2) m'"
    using assms by (simp add: toFixed_def Let_def n_def m'_def)
  have "m' = decimal (n div 100) @ [digit (n div 10 mod 10), digit (n mod 10)]"
  proof -
    consider "n < 10" | "10 \<le> n" "n < 100" | "100 \<le> n" by linarith
    then show ?thesis
    proof cases
      case 1
      then show ?thesis
        by (simp add: m'_def decimal_small digit_0 numeral_3_eq_3)
    next
      case 2
      then have "decimal n = [digit (n div 10), digit (n mod 10)]"
        by (simp add: decimal_big decimal_small)
      then show ?thesis using 2 by (simp add: m'_def decimal_small digit_0)
    next
      case 3
      then have d: "decimal n = decimal (n div 100) @ [digit (n div 10 mod 10), digit (n mod 10)]"
        by (rule decimal_two_digits)
      have "length (decimal (n div 100)) \<noteq> 0" using decimal_nonempty by simp
      then have "\<not> length (decimal n) \<le> 2" by (simp add: d)
      then show ?thesis using d by (simp add: m'_def)
    qed
  qed
  then show ?thesis unfolding tf n_def [symmetric] by simp
qed

lemma decimalValue_form:
  assumes "b < 10" and "c < 10"
  shows "decimalValue (decimal a @ ''.'' @ [digit b, digit c]) = of_nat (100 * a + 10 * b + c) / 100"
proof -
  have tw: "takeWhile (\<lambda>c. c \<noteq> CHR ''.'') (decimal a @ ''.'' @ [digit b, digit c]) = decimal a"
    using decimal_no_dot [of a] by (subst takeWhile_append2) auto
  have "natOfDigits [digit b, digit c] = 10 * b + c"
    using assms by (simp add: natOfDigits_def of_char_digit)
  then show ?thesis
    unfolding decimalValue_def tw Let_def
    by (simp add: natOfDigits_decimal field_simps)
qed

lemma roundTiesToEven_near: "\<bar>of_int (roundTiesToEven y) - y\<bar> \<le> 1 / 2"
proof -
  have "of_int \<lfloor>y\<rfloor> \<le> y" "y < of_int \<lfloor>y\<rfloor> + 1" by linarith+
  then show ?thesis by (auto simp: roundTiesToEven_def Let_def abs_le_iff)
qed

lemma roundTiesToEven_nonneg: "0 \<le> y \<Longrightarrow> 0 \<le> roundTiesToEven y"
  by (auto simp: roundTiesToEven_def Let_def)

lemma expo_lower:
  assumes "0 < x"
  shows "2 powi (expo x) \<le> x"
proof -
  obtain p q where pq: "quotient_of x = (p, q)" by (cases "quotient_of x")
  then have q: "0 < q" and x: "x = of_int p / of_int q"
    by (simp_all add: quotient_of_denom_pos quotient_of_div)
  from assms x q have p: "0 < p" by (simp add: zero_less_divide_iff)
  define d where "d = bitlen p - bitlen q"
  have e: "expo x = (if of_int p < of_int q * (2 :: rat) powi d then d - 1 else d)"
    by (simp add: expo_def pq d_def Let_def)
  show ?thesis
  proof (cases "of_int p < of_int q * (2 :: rat) powi d")
    case False
    then have "of_int q * (2 :: rat) powi d \<le> of_int p" by simp
    then have "(2 :: rat) powi d \<le> x"
      using q by (simp add: x pos_le_divide_eq mult.commute)
    then show ?thesis using False by (simp add: e)
  next
    case True
    have bp: "(2 :: int) ^ nat (bitlen p - 1) \<le> p" using bitlen_bounds [OF p] by simp
    have bq: "q < 2 ^ nat (bitlen q)" using bitlen_bounds [OF q] by simp
    have p1: "1 \<le> bitlen p"
    proof (rule ccontr)
      assume "\<not> 1 \<le> bitlen p"
      then have "nat (bitlen p) = 0" by simp
      with bitlen_bounds [OF p] show False using p by simp
    qed
    have q1: "0 \<le> bitlen q" by (rule bitlen_nonneg)
    have "(2 :: rat) powi (bitlen p - 1) \<le> of_int p"
    proof -
      have "(of_int ((2 :: int) ^ nat (bitlen p - 1)) :: rat) \<le> of_int p"
        using bp by (rule of_int_le_iff [THEN iffD2])
      then show ?thesis using p1 by (simp add: power_int_def)
    qed
    moreover have "(of_int q :: rat) \<le> 2 powi (bitlen q)"
    proof -
      have "(of_int q :: rat) \<le> of_int ((2 :: int) ^ nat (bitlen q))"
        using bq by (intro of_int_le_iff [THEN iffD2]) simp
      then show ?thesis using q1 by (simp add: power_int_def)
    qed
    ultimately have "(2 :: rat) powi (bitlen p - 1) / 2 powi (bitlen q) \<le> of_int p / of_int q"
      using q p by (intro frac_le) simp_all
    moreover have "(2 :: rat) powi (bitlen p - 1) / 2 powi (bitlen q) = 2 powi (d - 1)"
      by (simp add: d_def power_int_diff)
    ultimately have "(2 :: rat) powi (d - 1) \<le> x" by (simp add: x)
    then show ?thesis using True by (simp add: e)
  qed
qed

lemma fl_error:
  "\<bar>fl x - x\<bar> \<le> \<bar>x\<bar> / 2 ^ 53"
proof (cases "x = 0")
  case True
  then show ?thesis by (simp add: fl_def)
next
  case False
  define u :: rat where "u = 2 powi (expo \<bar>x\<bar> - 52)"
  have u: "0 < u" by (simp add: u_def)
  have f: "fl x = of_int (roundTiesToEven (x / u)) * u"
    using False by (simp add: fl_def u_def Let_def)
  have "fl x - x = (of_int (roundTiesToEven (x / u)) - x / u) * u"
    using u by (simp add: f field_simps)
  then have "\<bar>fl x - x\<bar> = \<bar>of_int (roundTiesToEven (x / u)) - x / u\<bar> * u"
    using u by (simp add: abs_mult)
  also have "\<dots> \<le> 1 / 2 * u"
    using roundTiesToEven_near [of "x / u"] u by (intro mult_right_mono) simp_all
  also have "1 / 2 * u = 2 powi (expo \<bar>x\<bar>) / 2 ^ 53"
    by (simp add: u_def power_int_diff)
  also have "\<dots> \<le> \<bar>x\<bar> / 2 ^ 53"
    using expo_lower [of "\<bar>x\<bar>"] False by (intro divide_right_mono) simp_all
  finally show ?thesis .
qed

lemma fl_nonneg: "0 \<le> x \<Longrightarrow> 0 \<le> fl x"
  by (auto simp: fl_def Let_def intro!: mult_nonneg_nonneg roundTiesToEven_nonneg)

lemma percent_error:
  assumes "0 < t" and "h \<le> t"
  shows "0 \<le> fl (fl (of_nat h / of_nat t) * 100)"
    and "\<bar>fl (fl (of_nat h / of_nat t) * 100) - 100 * of_nat h / of_nat t\<bar> \<le> 1 / 2 ^ 44"
proof -
  define r :: rat where "r = of_nat h / of_nat t"
  define q where "q = fl r"
  define v where "v = fl (q * 100)"
  have r: "0 \<le> r" "r \<le> 1" using assms by (simp_all add: r_def)
  have q0: "0 \<le> q" using r by (simp add: q_def fl_nonneg)
  have qe: "\<bar>q - r\<bar> \<le> 1 / 2 ^ 53"
  proof -
    have "\<bar>q - r\<bar> \<le> \<bar>r\<bar> / 2 ^ 53" unfolding q_def by (rule fl_error)
    also have "\<dots> \<le> 1 / 2 ^ 53" using r by (intro divide_right_mono) simp_all
    finally show ?thesis .
  qed
  then have "\<bar>q - r\<bar> \<le> 1" by (rule order_trans) simp
  then have q2: "q \<le> 2" using r by linarith
  have ve: "\<bar>v - q * 100\<bar> \<le> 200 / 2 ^ 53"
  proof -
    have "\<bar>v - q * 100\<bar> \<le> \<bar>q * 100\<bar> / 2 ^ 53" unfolding v_def by (rule fl_error)
    also have "\<dots> \<le> 200 / 2 ^ 53" using q0 q2 by (intro divide_right_mono) simp_all
    finally show ?thesis .
  qed
  show "0 \<le> fl (fl (of_nat h / of_nat t) * 100)"
    using q0 unfolding r_def [symmetric] q_def [symmetric] by (intro fl_nonneg) simp
  have "v - 100 * r = (v - q * 100) + 100 * (q - r)" by simp
  then have "\<bar>v - 100 * r\<bar> \<le> \<bar>v - q * 100\<bar> + \<bar>100 * (q - r)\<bar>"
    by (simp only: abs_triangle_ineq)
  moreover have "\<bar>100 * (q - r)\<bar> = 100 * \<bar>q - r\<bar>"
    using abs_mult [of 100 "q - r"] by simp
  ultimately have "\<bar>v - 100 * r\<bar> \<le> \<bar>v - q * 100\<bar> + 100 * \<bar>q - r\<bar>"
    by (simp only:)
  also have "\<dots> \<le> 200 / 2 ^ 53 + 100 * (1 / 2 ^ 53)"
    using ve qe by (intro add_mono mult_left_mono) simp_all
  also have "\<dots> \<le> 1 / 2 ^ 44" by simp
  finally show "\<bar>fl (fl (of_nat h / of_nat t) * 100) - 100 * of_nat h / of_nat t\<bar> \<le> 1 / 2 ^ 44"
    by (simp add: v_def q_def r_def)
qed

lemma three_digits: "(n :: nat) = 100 * (n div 100) + 10 * (n div 10 mod 10) + n mod 10"
proof -
  have "n div 10 div 10 = n div 100" by (simp add: div_mult2_eq [symmetric])
  then have "n div 10 = 10 * (n div 100) + n div 10 mod 10"
    using div_mult_mod_eq [of "n div 10" 10] by simp
  moreover have "n = 10 * (n div 10) + n mod 10" by simp
  ultimately show ?thesis by linarith
qed

lemma hitRate_accuracy:
  assumes "0 < h + m"
  shows "\<exists>n. hitRate h m =
           decimal (n div 100) @ ''.'' @ [digit (n div 10 mod 10), digit (n mod 10)] \<and>
         decimalValue (hitRate h m) = of_nat n / 100 \<and>
         \<bar>of_nat n / 100 - 100 * of_nat h / of_nat (h + m)\<bar> \<le> (1 / 200 + 1 / 2 ^ 44 :: rat)"
proof -
  define v where "v = fl (fl (of_nat h / of_nat (h + m)) * 100)"
  define n where "n = nat \<lfloor>v * 100 + 1 / 2\<rfloor>"
  define r :: rat where "r = 100 * of_nat h / of_nat (h + m)"
  define eps :: rat where "eps = 1 / 2 ^ 44"
  have v0: "0 \<le> v" and ve: "\<bar>v - r\<bar> \<le> eps"
    unfolding v_def r_def eps_def using assms by (intro percent_error; simp)+
  have t: "hitRate h m =
      decimal (n div 100) @ ''.'' @ [digit (n div 10 mod 10), digit (n mod 10)]"
    using assms toFixed_2 [OF v0] by (simp add: hitRate_def v_def n_def)
  have "decimalValue (hitRate h m) =
      of_nat (100 * (n div 100) + 10 * (n div 10 mod 10) + n mod 10) / 100"
    unfolding t by (rule decimalValue_form) simp_all
  then have dv: "decimalValue (hitRate h m) = of_nat n / 100"
    using three_digits [of n] by simp
  have "0 \<le> \<lfloor>v * 100 + 1 / 2\<rfloor>" using v0 by simp
  then have nz: "(of_nat n :: rat) = of_int \<lfloor>v * 100 + 1 / 2\<rfloor>" by (simp add: n_def)
  have a: "(of_nat n :: rat) \<le> v * 100 + 1 / 2" unfolding nz by linarith
  have b: "v * 100 + 1 / 2 < of_nat n + 1" unfolding nz by linarith
  have "of_nat n / 100 - v \<le> 1 / 200" using a by linarith
  moreover have "- (1 / 200) \<le> of_nat n / 100 - v" using b by linarith
  ultimately have c: "\<bar>of_nat n / 100 - v\<bar> \<le> 1 / 200" by (intro abs_leI) linarith+
  have "of_nat n / 100 - r = (of_nat n / 100 - v) + (v - r)" by simp
  then have "\<bar>of_nat n / 100 - r\<bar> \<le> \<bar>of_nat n / 100 - v\<bar> + \<bar>v - r\<bar>"
    by (simp only: abs_triangle_ineq)
  then have "\<bar>of_nat n / 100 - r\<bar> \<le> 1 / 200 + eps"
    using c ve by linarith
  with t dv show ?thesis unfolding r_def eps_def by blast
qed

text \<open>The line after one hit and one miss, after one hit and two misses, and after
  clear.\<close>

lemma hitRate_pos:
  "0 < h + m \<Longrightarrow> hitRate h m = toFixed 2 (fl (fl (of_nat h / of_nat (h + m)) * 100))"
  by (simp add: hitRate_def)

lemma toFixed_2_digits:
  assumes "0 \<le> x" and "nat \<lfloor>x * 100 + 1 / 2\<rfloor> = n"
  shows "toFixed 2 x = decimal (n div 100) @ ''.'' @ [digit (n div 10 mod 10), digit (n mod 10)]"
  using toFixed_2 [OF assms(1)] unfolding assms(2) .

lemma hitRate_1_1: "hitRate 1 1 = ''50.00''"
proof -
  have q: "fl (of_nat 1 / of_nat (1 + 1)) = 1 / 2" by code_simp
  have v: "fl (1 / 2 * 100) = 50" by code_simp
  have n: "nat \<lfloor>(50 :: rat) * 100 + 1 / 2\<rfloor> = 5000" by code_simp
  have e: "(5000 :: nat) div 100 = 50" "(5000 :: nat) div 10 mod 10 = 0" "(5000 :: nat) mod 10 = 0"
    by simp_all
  have d: "decimal 50 = ''50''" "digit 0 = CHR ''0''" by code_simp+
  have "hitRate 1 1 = toFixed 2 50"
    using hitRate_pos [of 1 1] unfolding q v by simp
  also have "\<dots> = ''50.00''"
    using toFixed_2_digits [OF _ n] unfolding e d by simp
  finally show ?thesis .
qed

lemma hitRate_1_2: "hitRate 1 2 = ''33.33''"
proof -
  have q: "fl (of_nat 1 / of_nat (1 + 2)) = 6004799503160661 / 2 ^ 54" by code_simp
  have v: "fl (6004799503160661 / 2 ^ 54 * 100) = 4691249611844266 / 2 ^ 47" by code_simp
  have n: "nat \<lfloor>(4691249611844266 / 2 ^ 47 :: rat) * 100 + 1 / 2\<rfloor> = 3333" by code_simp
  have e: "(3333 :: nat) div 100 = 33" "(3333 :: nat) div 10 mod 10 = 3" "(3333 :: nat) mod 10 = 3"
    by simp_all
  have d: "decimal 33 = ''33''" "digit 3 = CHR ''3''" by code_simp+
  have "hitRate 1 2 = toFixed 2 (4691249611844266 / 2 ^ 47)"
    using hitRate_pos [of 1 2] unfolding q v by simp
  also have "\<dots> = ''33.33''"
    using toFixed_2_digits [OF _ n] unfolding e d by simp
  finally show ?thesis .
qed


lemma hit_miss_fields:
  "hits hit_miss = 1" "misses hit_miss = 1" "cacheSize hit_miss = 202"
  "card (dom (cacheMap hit_miss)) = 2"
  by (simp_all add: hit_miss_def run_defs)

lemma numerals_of_example:
  "numberToString 202 = ''202''" "decimal 2 = ''2''" "decimal 1 = ''1''" "decimal 0 = ''0''"
  "numberToString 0 = ''0''" "decimalValue ''50.00'' = 50"
  by code_simp+

lemma logStats_hit_miss:
  "fst (logStats hit_miss) =
     ''[INFO] Cache Stats - Size: 202 bytes, Items: 2, Hit Rate: 50.00%, Hits: 1, Misses: 1''"
  unfolding logStats_def Logger_info_def hit_miss_fields hitRate_1_1 numerals_of_example
  by simp

lemma logStats_clear:
  "fst (logStats (clear s)) =
     ''[INFO] Cache Stats - Size: 0 bytes, Items: 0, Hit Rate: 0.00%, Hits: 0, Misses: 0''"
proof -
  have c: "cacheSize (clear s) = 0" "card (dom (cacheMap (clear s))) = 0"
    "hits (clear s) = 0" "misses (clear s) = 0"
    by (simp_all add: clear_def)
  have h: "hitRate 0 0 = ''0.00''" by (simp add: hitRate_def)
  show ?thesis
    unfolding logStats_def Logger_info_def c h numerals_of_example by simp
qed

text \<open>The limits in CONFIG satisfy the assumption on the configuration, so a cache
  built with them never loops in add.\<close>

lemma CONFIG_limits: "MAX_ELEMENT_SIZE \<le> CACHE_SIZE"
  by (simp add: MAX_ELEMENT_SIZE_def CACHE_SIZE_def)

lemma CONFIG_add_returns:
  "reachable CACHE_SIZE MAX_ELEMENT_SIZE s \<Longrightarrow> \<exists>b s'. add d u now stamp s = Some (b, s')"
  by (rule reachable_add_returns [OF _ CONFIG_limits])

section \<open>The claims\<close>

text \<open>C1: the claim is that the map and the list hold the same elements after every
  operation, and that add(d, k) followed by add(d', k) leaves one entry for k in both.
  In the code the second add takes the old element out of the map and of cacheSize but
  leaves it in the list: the list then holds two elements with url k, the map one.\<close>

theorem double_insert_keeps_stale_element:
  "add (payload 100) ''k'' 1 [] (newCache 300 300) = Some (True, once) \<and>
   add (payload 50) ''k'' 2 [] once = Some (True, twice) \<and>
   dll twice [1, 0] \<and> url (store twice 0) = ''k'' \<and> url (store twice 1) = ''k'' \<and>
   data (store twice 0) = payload 100 \<and> data (store twice 1) = payload 50 \<and>
   cacheMap twice ''k'' = Some 1 \<and> dom (cacheMap twice) = {''k''} \<and> cacheSize twice = 51"
  by (simp add: twice_def run_defs dll_def)

text \<open>C2: the claim is that cacheSize is the sum of the accounted sizes of the cached
  entries, and at most maxSize.  After the two adds of C1 and an add that evicts the
  stale element, cacheSize is 200, the only entry of the map accounts for 250 bytes and
  the elements of the list for 301 bytes, in a cache of 300 bytes: the eviction has
  subtracted the stale element a second time and deleted the key of the live one.\<close>

theorem eviction_of_stale_element_miscounts:
  "add (payload 249) ''b'' 3 [] twice = Some (True, twice_evicted) \<and>
   dll twice_evicted [2, 1] \<and> cacheSize twice_evicted = 200 \<and> maxSize twice_evicted = 300 \<and>
   dom (cacheMap twice_evicted) = {''b''} \<and> cacheMap twice_evicted ''b'' = Some 2 \<and>
   accounted (store twice_evicted 2) = 250 \<and> accounted (store twice_evicted 1) = 51 \<and>
   listBytes twice_evicted [2, 1] = 301 \<and>
   url (store twice_evicted 1) = ''k'' \<and> cacheMap twice_evicted ''k'' = None"
  by (simp add: twice_evicted_def twice_def run_defs dll_def listBytes_def)

text \<open>C3: on a cache whose list is well formed and whose map entries are elements of
  the list (as in every reachable state, see \<open>reachable_wf\<close>), find(u) for a key that is
  not in the map returns null and only increments misses; for a key that is in the map
  it returns the element of the map, increments hits and nothing else of the counters,
  sets lruTimeTrack of the element to the current time and moves the element to the
  head of the list, the other elements keeping their order; the map, cacheSize and the
  contents of all elements are unchanged.\<close>

theorem find_hit_or_miss:
  assumes "dll s xs" and "\<forall>k r. cacheMap s k = Some r \<longrightarrow> r \<in> set xs"
  shows "(cacheMap s u = None \<longrightarrow> find_c u now s = (None, s\<lparr>misses := misses s + 1\<rparr>)) \<and>
         (\<forall>e. cacheMap s u = Some e \<longrightarrow>
            fst (find_c u now s) = Some e \<and>
            hits (snd (find_c u now s)) = hits s + 1 \<and>
            misses (snd (find_c u now s)) = misses s \<and>
            lruTimeTrack (store (snd (find_c u now s)) e) = now \<and>
            dll (snd (find_c u now s)) (e # remove1 e xs) \<and>
            cacheMap (snd (find_c u now s)) = cacheMap s \<and>
            cacheSize (snd (find_c u now s)) = cacheSize s \<and>
            (\<forall>r. data (store (snd (find_c u now s)) r) = data (store s r) \<and>
                 url (store (snd (find_c u now s)) r) = url (store s r) \<and>
                 length_el (store (snd (find_c u now s)) r) = length_el (store s r) \<and>
                 timestamp (store (snd (find_c u now s)) r) = timestamp (store s r)))"
proof (intro conjI allI impI)
  assume "cacheMap s u = None"
  then show "find_c u now s = (None, s\<lparr>misses := misses s + 1\<rparr>)"
    by (rule find_c_miss)
next
  fix e
  assume hit: "cacheMap s u = Some e"
  then have e: "e \<in> set xs" using assms(2) by blast
  note h = find_c_hit [OF assms(1) hit e, of now]
  show "fst (find_c u now s) = Some e" by (rule h)
  show "hits (snd (find_c u now s)) = hits s + 1" by (rule h)
  show "misses (snd (find_c u now s)) = misses s" by (rule h)
  show "lruTimeTrack (store (snd (find_c u now s)) e) = now" by (rule h)
  show "dll (snd (find_c u now s)) (e # remove1 e xs)" by (rule h)
  show "cacheMap (snd (find_c u now s)) = cacheMap s" by (rule h)
  show "cacheSize (snd (find_c u now s)) = cacheSize s" by (rule h)
  show "data (store (snd (find_c u now s)) r) = data (store s r)" for r by (rule h)
  show "url (store (snd (find_c u now s)) r) = url (store s r)" for r by (rule h)
  show "length_el (store (snd (find_c u now s)) r) = length_el (store s r)" for r by (rule h)
  show "timestamp (store (snd (find_c u now s)) r) = timestamp (store s r)" for r by (rule h)
qed

theorem find_hit_or_miss_witness:
  "dll ab [1, 0] \<and>
   cacheMap ab ''x'' = None \<and> find_c ''x'' 3 ab = (None, ab\<lparr>misses := misses ab + 1\<rparr>) \<and>
   cacheMap ab ''a'' = Some 0 \<and> fst (find_c ''a'' 3 ab) = Some 0 \<and>
   hits (snd (find_c ''a'' 3 ab)) = hits ab + 1 \<and>
   misses (snd (find_c ''a'' 3 ab)) = misses ab \<and>
   lruTimeTrack (store (snd (find_c ''a'' 3 ab)) 0) = 3 \<and>
   dll (snd (find_c ''a'' 3 ab)) [0, 1]"
proof -
  have a: "dll ab [1, 0]" by (simp add: dll_def run_defs)
  have b: "\<forall>k r. cacheMap ab k = Some r \<longrightarrow> r \<in> set [1, 0]"
    by (simp add: run_defs)
  have x: "cacheMap ab ''x'' = None" by (simp add: run_defs)
  have y: "cacheMap ab ''a'' = Some 0" by (simp add: run_defs)
  show ?thesis
    using find_hit_or_miss [OF a b, of "''x''" 3] find_hit_or_miss [OF a b, of "''a''" 3] a x y
    by simp
qed

text \<open>C4: an element larger than maxElementSize is refused and the cache is left as
  it was; on a cache that was empty, a following find of the key misses.\<close>

theorem add_oversize_rejected:
  "int (length d) + int (byteLength k) > maxElementSize s \<Longrightarrow>
     add d k now stamp s = Some (False, s) \<and>
     (cacheMap s = Map.empty \<longrightarrow> fst (find_c k now' s) = None)"
  by (simp add: add_def find_c_def)

theorem add_oversize_rejected_witness:
  "int (length (payload 1025)) + int (byteLength ''x'') > maxElementSize (newCache 209715200 1024) \<and>
   add (payload 1025) ''x'' 1 [] (newCache 209715200 1024) = Some (False, newCache 209715200 1024) \<and>
   fst (find_c ''x'' 2 (newCache 209715200 1024)) = None"
  using add_oversize_rejected [of "newCache 209715200 1024" "payload 1025" "''x''" 1 "[]" 2]
  by (simp add: payload_def byteLength_def newCache_def)

text \<open>C5, as stated: after the scenario the map holds a, c and d, the list is d, a, c
  (the elements 3, 0 and 2, in the order of their allocation) and cacheSize is
  140 + 100 + 100 plus the three key bytes.  This fails: three entries of 101 accounted
  bytes do not fit in 300 bytes.\<close>

theorem cascading_eviction_counterexample:
  "\<not> (dom (cacheMap abcd) = {''a'', ''c'', ''d''} \<and> dll abcd [3, 0, 2] \<and>
      cacheSize abcd = 140 + 100 + 100 + 3)"
  by (simp add: abcd_def abc_found_def abc_def run_defs)

text \<open>C5, amended: every add of the scenario returns true; the add of "c" evicts "a", so
  that the list is c, b with 202 bytes and find("a") misses; the add of "d" evicts "b";
  in the end the list is d, c, the map holds c and d, and cacheSize is 242.\<close>

theorem cascading_eviction_run:
  "add (payload 100) ''a'' 1 [] (newCache 300 300) = Some (True, a_only) \<and>
   add (payload 100) ''b'' 2 [] a_only = Some (True, ab) \<and>
   dll ab [1, 0] \<and> cacheSize ab = 202 \<and>
   add (payload 100) ''c'' 3 [] ab = Some (True, abc) \<and>
   add (payload 140) ''d'' 5 [] (snd abc_found) = Some (True, abcd) \<and>
   dll abc [2, 1] \<and> map (\<lambda>r. url (store abc r)) [2, 1] = [''c'', ''b''] \<and> cacheSize abc = 202 \<and>
   fst abc_found = None \<and>
   dll abcd [3, 2] \<and> map (\<lambda>r. url (store abcd r)) [3, 2] = [''d'', ''c''] \<and>
   dom (cacheMap abcd) = {''d'', ''c''} \<and> cacheSize abcd = 242"
  by (simp add: abcd_def abc_found_def abc_def run_defs dll_def)

text \<open>C6: when the invariants of the data model hold, maxElementSize is at most maxSize
  and the new element is within maxElementSize, the loop of add returns after some
  number n of calls of removeLRU, n at most the length of the list; each of these calls
  is made with the loop condition true and a non-empty list; then the condition is
  false and add returns true.\<close>

theorem eviction_loop_terminates:
  assumes "spec_inv s xs" and "maxElementSize s \<le> maxSize s"
    and "int (length d) + int (byteLength k) \<le> maxElementSize s"
  shows "\<exists>n\<le>length xs.
      ensureSpace (int (length d) + int (byteLength k)) (removeExisting k s) =
        Some ((removeLRU ^^ n) (removeExisting k s)) \<and>
      (\<forall>i<n. needsSpace (int (length d) + int (byteLength k)) ((removeLRU ^^ i) (removeExisting k s)) \<and>
             tail ((removeLRU ^^ i) (removeExisting k s)) \<noteq> None) \<and>
      \<not> needsSpace (int (length d) + int (byteLength k)) ((removeLRU ^^ n) (removeExisting k s)) \<and>
      add d k now stamp s =
        Some (True, insertFront d k now stamp ((removeLRU ^^ n) (removeExisting k s)))"
proof -
  let ?e = "int (length d) + int (byteLength k)"
  let ?s1 = "removeExisting k s"
  have "dll ?s1 xs" using assms(1) by (simp add: spec_inv_def)
  moreover have "cacheSize ?s1 \<le> listBytes ?s1 xs"
    using spec_inv_existing [OF assms(1)] by simp
  moreover have "?e \<le> maxSize ?s1" using assms(2,3) by simp
  ultimately obtain n where n: "n \<le> length xs"
    "ensureSpace ?e ?s1 = Some ((removeLRU ^^ n) ?s1)"
    "\<forall>i<n. needsSpace ?e ((removeLRU ^^ i) ?s1) \<and> tail ((removeLRU ^^ i) ?s1) \<noteq> None"
    "\<not> needsSpace ?e ((removeLRU ^^ n) ?s1)"
    using ensureSpace_run [of ?s1 xs ?e] by blast
  have "add d k now stamp s = Some (True, insertFront d k now stamp ((removeLRU ^^ n) ?s1))"
    using assms(3) n(2) by (simp add: add_def Let_def)
  with n show ?thesis by blast
qed

theorem eviction_loop_terminates_witness:
  "maxElementSize ab \<le> maxSize ab \<and>
   int (length (payload 140)) + int (byteLength ''d'') \<le> maxElementSize ab \<and>
   needsSpace 141 (removeExisting ''d'' ab) \<and>
   tail (removeExisting ''d'' ab) \<noteq> None \<and>
   \<not> needsSpace 141 (removeLRU (removeExisting ''d'' ab)) \<and>
   ensureSpace 141 (removeExisting ''d'' ab) = Some (removeLRU (removeExisting ''d'' ab)) \<and>
   add (payload 140) ''d'' 5 [] ab =
     Some (True, insertFront (payload 140) ''d'' 5 [] (removeLRU (removeExisting ''d'' ab)))"
proof -
  let ?s1 = "removeExisting ''d'' ab"
  have a: "spec_inv ab [1, 0]" by (rule ab_spec_inv)
  have b: "maxElementSize ab \<le> maxSize ab" by (simp add: run_defs)
  have c: "int (length (payload 140)) + int (byteLength ''d'') \<le> maxElementSize ab"
    by (simp add: run_defs)
  have e: "int (length (payload 140)) + int (byteLength ''d'') = 141"
    by (simp add: payload_def byteLength_def)
  from eviction_loop_terminates [OF a b c, of 5 "[]"] obtain n where
    n: "n \<le> 2" "ensureSpace 141 ?s1 = Some ((removeLRU ^^ n) ?s1)"
      "\<forall>i<n. needsSpace 141 ((removeLRU ^^ i) ?s1) \<and> tail ((removeLRU ^^ i) ?s1) \<noteq> None"
      "\<not> needsSpace 141 ((removeLRU ^^ n) ?s1)"
      "add (payload 140) ''d'' 5 [] ab =
         Some (True, insertFront (payload 140) ''d'' 5 [] ((removeLRU ^^ n) ?s1))"
    unfolding e by (auto simp: numeral_2_eq_2)
  have n0: "needsSpace 141 ?s1" by (simp add: needsSpace_def run_defs)
  have n1: "\<not> needsSpace 141 (removeLRU ?s1)" by (simp add: needsSpace_def run_defs)
  have "n \<noteq> 0" using n(4) n0 by (auto intro: ccontr)
  moreover have "n \<noteq> 2" using n(3) n1 by (auto simp: numeral_2_eq_2)
  ultimately have "n = 1" using n(1) by arith
  with n b c show ?thesis by (simp add: e)
qed

text \<open>C7, as stated: the query values example.test/y, http://example.test/y and
  http://example.test/y/ give the same cache key.  This fails for the third value: the
  handler does not strip a trailing slash.\<close>

theorem formattedUrl_counterexample:
  "formattedUrl ''http://example.test/y/'' \<noteq> formattedUrl ''http://example.test/y''"
  by code_simp

text \<open>C7, amended: for a query value that is not empty, the handler looks the cache up
  under the value itself when it starts with http:// or https://, and under http://
  followed by the value otherwise; nothing is stripped.  On a hit it serves the element
  that the map holds under this key; when it answers a miss, it has passed the body to
  add under the href of this key.  So example.test/y and http://example.test/y are
  handled alike, with the lookup key http://example.test/y, and http://example.test/y/
  is looked up under http://example.test/y/.\<close>

theorem proxy_cache_keys:
  "proxy href origin (Some ''example.test/y'') now now' stamp s =
     proxy href origin (Some ''http://example.test/y'') now now' stamp s \<and>
   (cacheStatus (proxy href origin (Some ''http://example.test/y'') now now' stamp s) = Some HIT
      \<longleftrightarrow> cacheMap s ''http://example.test/y'' \<noteq> None) \<and>
   (cacheStatus (proxy href origin (Some ''http://example.test/y/'') now now' stamp s) = Some HIT
      \<longleftrightarrow> cacheMap s ''http://example.test/y/'' \<noteq> None) \<and>
   (t \<noteq> [] \<longrightarrow>
      (cacheStatus (proxy href origin (Some t) now now' stamp s) = Some HIT
         \<longleftrightarrow> cacheMap s (if hasScheme t then t else ''http://'' @ t) \<noteq> None) \<and>
      (\<forall>e. cacheMap s (if hasScheme t then t else ''http://'' @ t) = Some e \<longrightarrow>
         proxy href origin (Some t) now now' stamp s =
           Some (Served \<lparr>statusCode = 200, xCache = HIT,
                         xCacheDate = Some (timestamp (store s e)), body = data (store s e)\<rparr>,
                 snd (find_c (if hasScheme t then t else ''http://'' @ t) now s))) \<and>
      (\<forall>r s1. proxy href origin (Some t) now now' stamp s = Some (Served r, s1) \<and> xCache r = MISS \<longrightarrow>
         (\<exists>h st responseData admitted.
            href (if hasScheme t then t else ''http://'' @ t) = Some h \<and>
            origin h = Inr (st, responseData) \<and> body r = responseData \<and>
            add responseData h now' stamp
              (snd (find_c (if hasScheme t then t else ''http://'' @ t) now s)) = Some (admitted, s1) \<and>
            (admitted \<longrightarrow> (\<exists>e. cacheMap s1 h = Some e \<and> data (store s1 e) = responseData)))))"
proof -
  have f: "formattedUrl u = (if hasScheme u then u else ''http://'' @ u)" for u
    by (simp add: formattedUrl_def)
  have 1: "proxy href origin (Some ''example.test/y'') now now' stamp s =
     proxy href origin (Some ''http://example.test/y'') now now' stamp s"
    by (simp add: proxy_def formattedUrl_plain formattedUrl_y)
  have 2: "cacheStatus (proxy href origin (Some ''http://example.test/y'') now now' stamp s) = Some HIT
      \<longleftrightarrow> cacheMap s ''http://example.test/y'' \<noteq> None"
    using proxy_hit_iff [of "''http://example.test/y''" href origin now now' stamp s]
    by (simp add: formattedUrl_y)
  have 3: "cacheStatus (proxy href origin (Some ''http://example.test/y/'') now now' stamp s) = Some HIT
      \<longleftrightarrow> cacheMap s ''http://example.test/y/'' \<noteq> None"
    using proxy_hit_iff [of "''http://example.test/y/''" href origin now now' stamp s]
    by (simp add: formattedUrl_slash)
  have 4: "cacheStatus (proxy href origin (Some t) now now' stamp s) = Some HIT
         \<longleftrightarrow> cacheMap s (if hasScheme t then t else ''http://'' @ t) \<noteq> None" if "t \<noteq> []"
    using proxy_hit_iff [OF that, of href origin now now' stamp s] unfolding f .
  have 5: "proxy href origin (Some t) now now' stamp s =
           Some (Served \<lparr>statusCode = 200, xCache = HIT,
                         xCacheDate = Some (timestamp (store s e)), body = data (store s e)\<rparr>,
                 snd (find_c (if hasScheme t then t else ''http://'' @ t) now s))"
    if "t \<noteq> []" "cacheMap s (if hasScheme t then t else ''http://'' @ t) = Some e" for e
    using proxy_hit_serves [of t s e href origin now now' stamp] that unfolding f by blast
  have 6: "\<exists>h st responseData admitted.
            href (if hasScheme t then t else ''http://'' @ t) = Some h \<and>
            origin h = Inr (st, responseData) \<and> body r = responseData \<and>
            add responseData h now' stamp
              (snd (find_c (if hasScheme t then t else ''http://'' @ t) now s)) = Some (admitted, s1) \<and>
            (admitted \<longrightarrow> (\<exists>e. cacheMap s1 h = Some e \<and> data (store s1 e) = responseData))"
    if "proxy href origin (Some t) now now' stamp s = Some (Served r, s1)" "xCache r = MISS" for r s1
    using proxy_miss_adds [OF that] unfolding f .
  from 1 2 3 4 5 6 show ?thesis by blast
qed

theorem proxy_cache_keys_witness:
  "cacheMap holding_y ''http://example.test/y'' = Some 0 \<and>
   cacheMap holding_y ''http://example.test/y/'' = None \<and>
   cacheStatus (proxy href_example_slash origin_ok (Some ''example.test/y'') 3 4 [] holding_y) = Some HIT \<and>
   cacheStatus (proxy href_example_slash origin_ok (Some ''http://example.test/y'') 3 4 [] holding_y) = Some HIT \<and>
   cacheStatus slash_request = Some MISS \<and>
   cacheMap (after slash_request holding_y) ''http://example.test/y/'' = Some 1 \<and>
   cacheMap (after slash_request holding_y) ''http://example.test/y'' = Some 0"
proof -
  have a: "cacheMap holding_y ''http://example.test/y'' = Some 0"
    and b: "cacheMap holding_y ''http://example.test/y/'' = None"
    by (simp_all add: holding_y_def first_request_def proxy_defs formattedUrl_y run_defs)
  note k = proxy_cache_keys [of href_example_slash origin_ok 3 4 "[]" holding_y "''http://example.test/y/''"]
  have 1: "cacheStatus (proxy href_example_slash origin_ok (Some ''http://example.test/y'') 3 4 [] holding_y) = Some HIT"
    using k a by simp
  then have 2: "cacheStatus (proxy href_example_slash origin_ok (Some ''example.test/y'') 3 4 [] holding_y) = Some HIT"
    using k by simp
  have 3: "cacheStatus slash_request \<noteq> Some HIT"
    using k b by (simp add: slash_request_def)
  have 4: "cacheStatus slash_request = Some MISS \<and>
     cacheMap (after slash_request holding_y) ''http://example.test/y/'' = Some 1 \<and>
     cacheMap (after slash_request holding_y) ''http://example.test/y'' = Some 0"
    by (simp add: slash_request_def holding_y_def first_request_def proxy_defs
        href_example_slash_def formattedUrl_y formattedUrl_slash run_defs)
  from a b 1 2 3 4 show ?thesis by simp
qed

text \<open>C8, as stated: an observer stats() returns the hit rate hits / (hits + misses).
  This fails: the observer is logStats, which logs a line, and the hit rate in the line
  is a percentage: after one hit and one miss the line shows 50.00, which is not 1/2.\<close>

theorem logStats_counterexample:
  "hits hit_miss = 1 \<and> misses hit_miss = 1 \<and>
   fst (logStats hit_miss) =
     ''[INFO] Cache Stats - Size: 202 bytes, Items: 2, Hit Rate: 50.00%, Hits: 1, Misses: 1'' \<and>
   hitRate (hits hit_miss) (misses hit_miss) = ''50.00'' \<and>
   decimalValue (hitRate (hits hit_miss) (misses hit_miss)) = 50 \<and>
   decimalValue (hitRate (hits hit_miss) (misses hit_miss)) \<noteq>
     of_nat (hits hit_miss) / of_nat (hits hit_miss + misses hit_miss)"
  unfolding hit_miss_fields hitRate_1_1 numerals_of_example
  using logStats_hit_miss by simp

text \<open>C8, amended: logStats leaves the cache as it is and logs one line, made of
  cacheSize, the number of entries of the map, the hit rate, hits and misses, each as
  a decimal numeral (while the counters are below 2^53 and the size below 10^21 in
  absolute value, where the numbers are exact and printed in full).  The hit rate is
  0.00 when there was no lookup; otherwise it is a numeral with two decimals that
  denotes n / 100 for an n within 1/200 + 1/2^44 of 100 * hits / (hits + misses).
  After clear the line shows 0 for all five.\<close>

theorem logStats_line:
  assumes "hits s + misses s < 2 ^ 53" and "\<bar>cacheSize s\<bar> < 10 ^ 21"
  shows "snd (logStats s) = s \<and>
     fst (logStats s) =
       ''[INFO] Cache Stats - Size: '' @ numberToString (cacheSize s) @
       '' bytes, Items: '' @ decimal (card (dom (cacheMap s))) @
       '', Hit Rate: '' @ hitRate (hits s) (misses s) @
       ''%, Hits: '' @ decimal (hits s) @ '', Misses: '' @ decimal (misses s) \<and>
     natOfDigits (decimal (card (dom (cacheMap s)))) = card (dom (cacheMap s)) \<and>
     natOfDigits (decimal (hits s)) = hits s \<and>
     natOfDigits (decimal (misses s)) = misses s \<and>
     (0 \<le> cacheSize s \<longrightarrow> natOfDigits (numberToString (cacheSize s)) = nat (cacheSize s)) \<and>
     (hits s + misses s = 0 \<longrightarrow> hitRate (hits s) (misses s) = ''0.00'') \<and>
     (0 < hits s + misses s \<longrightarrow>
        (\<exists>n. hitRate (hits s) (misses s) =
                decimal (n div 100) @ ''.'' @ [digit (n div 10 mod 10), digit (n mod 10)] \<and>
             decimalValue (hitRate (hits s) (misses s)) = of_nat n / 100 \<and>
             \<bar>of_nat n / 100 - 100 * of_nat (hits s) / of_nat (hits s + misses s)\<bar>
               \<le> (1 / 200 + 1 / 2 ^ 44 :: rat))) \<and>
     fst (logStats (clear s)) =
       ''[INFO] Cache Stats - Size: 0 bytes, Items: 0, Hit Rate: 0.00%, Hits: 0, Misses: 0''"
proof -
  have 1: "snd (logStats s) = s" by (simp add: logStats_def)
  have 2: "fst (logStats s) =
       ''[INFO] Cache Stats - Size: '' @ numberToString (cacheSize s) @
       '' bytes, Items: '' @ decimal (card (dom (cacheMap s))) @
       '', Hit Rate: '' @ hitRate (hits s) (misses s) @
       ''%, Hits: '' @ decimal (hits s) @ '', Misses: '' @ decimal (misses s)"
    by (simp add: logStats_def Logger_info_def)
  have 3: "0 \<le> cacheSize s \<longrightarrow> natOfDigits (numberToString (cacheSize s)) = nat (cacheSize s)"
    by (simp add: numberToString_def natOfDigits_decimal)
  have 4: "hits s + misses s = 0 \<longrightarrow> hitRate (hits s) (misses s) = ''0.00''"
    by (simp add: hitRate_def)
  have 5: "0 < hits s + misses s \<longrightarrow>
        (\<exists>n. hitRate (hits s) (misses s) =
                decimal (n div 100) @ ''.'' @ [digit (n div 10 mod 10), digit (n mod 10)] \<and>
             decimalValue (hitRate (hits s) (misses s)) = of_nat n / 100 \<and>
             \<bar>of_nat n / 100 - 100 * of_nat (hits s) / of_nat (hits s + misses s)\<bar>
               \<le> (1 / 200 + 1 / 2 ^ 44 :: rat))"
    using hitRate_accuracy [of "hits s" "misses s"] by blast
  from 1 2 3 4 5 logStats_clear [of s] show ?thesis
    by (simp only: natOfDigits_decimal simp_thms)
qed

theorem logStats_line_witness:
  "hits hit_miss + misses hit_miss < 2 ^ 53 \<and> \<bar>cacheSize hit_miss\<bar> < 10 ^ 21 \<and>
   snd (logStats hit_miss) = hit_miss \<and>
   fst (logStats hit_miss) =
     ''[INFO] Cache Stats - Size: 202 bytes, Items: 2, Hit Rate: 50.00%, Hits: 1, Misses: 1'' \<and>
   decimalValue (hitRate (hits hit_miss) (misses hit_miss)) = 50 \<and>
   \<bar>(50 :: rat) - 100 * of_nat (hits hit_miss) / of_nat (hits hit_miss + misses hit_miss)\<bar>
     \<le> 1 / 200 + 1 / 2 ^ 44 \<and>
   fst (logStats (clear hit_miss)) =
     ''[INFO] Cache Stats - Size: 0 bytes, Items: 0, Hit Rate: 0.00%, Hits: 0, Misses: 0''"
proof -
  have a: "hits hit_miss + misses hit_miss < 2 ^ 53" by (simp add: hit_miss_fields)
  have b: "\<bar>cacheSize hit_miss\<bar> < 10 ^ 21" by (simp add: hit_miss_fields)
  have p: "0 < hits hit_miss + misses hit_miss" by (simp add: hit_miss_fields)
  note l = logStats_line [OF a b]
  from l p obtain n where
    n: "decimalValue (hitRate (hits hit_miss) (misses hit_miss)) = of_nat n / 100"
      "\<bar>of_nat n / 100 - 100 * of_nat (hits hit_miss) / of_nat (hits hit_miss + misses hit_miss)\<bar>
         \<le> (1 / 200 + 1 / 2 ^ 44 :: rat)"
    by blast
  have v: "decimalValue (hitRate (hits hit_miss) (misses hit_miss)) = 50"
    unfolding hit_miss_fields hitRate_1_1 numerals_of_example ..
  from n v have "\<bar>(50 :: rat) - 100 * of_nat (hits hit_miss) / of_nat (hits hit_miss + misses hit_miss)\<bar>
     \<le> 1 / 200 + 1 / 2 ^ 44" by simp
  with a b l v logStats_hit_miss show ?thesis by (simp only: simp_thms)
qed

text \<open>C9: when the key is in the map and the new element is larger than
  maxElementSize, add returns false and leaves the cache as it was, the old entry
  included: a following find of the key hits and returns the element with the old
  bytes.\<close>

theorem add_oversize_keeps_entry:
  assumes "cacheMap s k = Some e"
    and "int (length d) + int (byteLength k) > maxElementSize s"
  shows "add d k now stamp s = Some (False, s) \<and>
         fst (find_c k now' s) = Some e \<and>
         data (store (snd (find_c k now' s)) e) = data (store s e)"
proof -
  let ?s2 = "s\<lparr>hits := hits s + 1,
     store := (store s)(e := (store s e)\<lparr>lruTimeTrack := now'\<rparr>)\<rparr>"
  have "data (store (moveToFront e ?s2) e) = data (store ?s2 e)"
    using moveToFront_relinked [of ?s2 e] by (simp add: relinked_def)
  then show ?thesis using assms
    by (simp add: add_def find_c_def Let_def)
qed

theorem add_oversize_keeps_entry_witness:
  "cacheMap ab ''a'' = Some 0 \<and>
   int (length (payload 300)) + int (byteLength ''a'') > maxElementSize ab \<and>
   add (payload 300) ''a'' 3 [] ab = Some (False, ab) \<and>
   fst (find_c ''a'' 4 ab) = Some 0 \<and>
   data (store (snd (find_c ''a'' 4 ab)) 0) = payload 100"
proof -
  have a: "cacheMap ab ''a'' = Some 0" by (simp add: run_defs)
  have b: "int (length (payload 300)) + int (byteLength ''a'') > maxElementSize ab"
    by (simp add: run_defs)
  have c: "data (store ab 0) = payload 100" by (simp add: run_defs)
  show ?thesis
    using add_oversize_keeps_entry [OF a b, of 3 "[]" 4] a b c by simp
qed

text \<open>C10, as stated: after a miss, a second identical request is a hit exactly when
  the scheme-prefixed url equals its href.  This fails when the body is too large to be
  admitted: the url below is its own href, and both requests miss.\<close>

theorem second_request_counterexample:
  "href_example (formattedUrl ''http://example.test/y'') = Some (formattedUrl ''http://example.test/y'') \<and>
   cacheStatus first_request_big = Some MISS \<and>
   cacheStatus (proxy href_example origin_big (Some ''http://example.test/y'') 3 4 []
     (after first_request_big (newCache 300 300))) = Some MISS"
  by (simp add: first_request_big_def proxy_defs formattedUrl_y run_defs)

text \<open>C10, amended: when a request is answered as a miss, the origin's body was passed to
  add under the href of the scheme-prefixed url, while the lookup used the
  scheme-prefixed url itself; add admitted it exactly when its size with the key is
  within maxElementSize, and then the map holds the body under the href.  A second
  identical request is a hit exactly when the scheme-prefixed url equals its href and
  the body was admitted.\<close>

theorem second_request_hit_iff:
  assumes "proxy href origin (Some t) now now' stamp s = Some (Served r, s1)"
    and "xCache r = MISS"
  shows "\<exists>h st responseData admitted.
     href (formattedUrl t) = Some h \<and> origin h = Inr (st, responseData) \<and>
     body r = responseData \<and>
     add responseData h now' stamp (s\<lparr>misses := misses s + 1\<rparr>) = Some (admitted, s1) \<and>
     admitted = (int (length responseData) + int (byteLength h) \<le> maxElementSize s) \<and>
     (admitted \<longrightarrow> (\<exists>e. cacheMap s1 h = Some e \<and> data (store s1 e) = responseData)) \<and>
     (cacheStatus (proxy href origin (Some t) now2 now2' stamp2 s1) = Some HIT \<longleftrightarrow>
        h = formattedUrl t \<and> admitted)"
proof -
  let ?f = "formattedUrl t"
  let ?s' = "s\<lparr>misses := misses s + 1\<rparr>"
  have t: "t \<noteq> []" using assms(1) by (auto simp: proxy_def)
  have miss: "cacheMap s ?f = None"
    using assms t by (auto simp: proxy_def find_c_def Let_def split: option.splits)
  then have fnd: "find_c ?f now s = (None, ?s')" by (simp add: find_c_def)
  from assms(1) t fnd obtain h st responseData admitted where
    h: "href ?f = Some h" and o: "origin h = Inr (st, responseData)"
    and a: "add responseData h now' stamp ?s' = Some (admitted, s1)"
    and b: "body r = responseData"
    by (auto simp: proxy_def Let_def split: option.splits sum.splits)
  have m: "cacheMap ?s' ?f = None" using miss by simp
  have "admitted = (int (length responseData) + int (byteLength h) \<le> maxElementSize s)"
    using add_map(1) [OF a m] by simp
  moreover have "admitted \<longrightarrow> (\<exists>e. cacheMap s1 h = Some e \<and> data (store s1 e) = responseData)"
    by (rule add_map(2) [OF a m])
  moreover have "cacheStatus (proxy href origin (Some t) now2 now2' stamp2 s1) = Some HIT \<longleftrightarrow>
        h = ?f \<and> admitted"
    using add_map(3) [OF a m] proxy_hit_iff [OF t, of href origin now2 now2' stamp2 s1] by auto
  ultimately show ?thesis using h o a b by blast
qed

theorem second_request_hit_iff_witness:
  "cacheStatus first_request = Some MISS \<and>
   cacheStatus (proxy href_example origin_ok (Some ''http://example.test/y'') 3 4 []
     (after first_request (newCache 300 300))) = Some HIT \<and>
   cacheStatus first_request_root = Some MISS \<and>
   cacheStatus (proxy href_example origin_ok (Some ''example.test'') 3 4 []
     (after first_request_root (newCache 300 300))) = Some MISS"
proof -
  obtain r s1 where a: "first_request = Some (Served r, s1)" and b: "xCache r = MISS"
    by (simp add: first_request_def proxy_defs formattedUrl_y run_defs)
  have c: "int (length (payload 2)) + int (byteLength ''http://example.test/y'') \<le> 300"
    by (simp add: payload_def byteLength_def)
  from second_request_hit_iff [OF a [unfolded first_request_def] b, of 3 4 "[]"]
  have "cacheStatus (proxy href_example origin_ok (Some ''http://example.test/y'') 3 4 [] s1) = Some HIT"
    using c by (auto simp: formattedUrl_y href_example_def origin_ok_def newCache_def)
  then have "cacheStatus (proxy href_example origin_ok (Some ''http://example.test/y'') 3 4 []
       (after first_request (newCache 300 300))) = Some HIT"
    by (simp add: a after_def)
  then have 1: "cacheStatus first_request = Some MISS \<and>
     cacheStatus (proxy href_example origin_ok (Some ''http://example.test/y'') 3 4 []
       (after first_request (newCache 300 300))) = Some HIT"
    by (simp add: a b cacheStatus_def after_def)
  obtain r' s1' where a': "first_request_root = Some (Served r', s1')" and b': "xCache r' = MISS"
    by (simp add: first_request_root_def proxy_defs formattedUrl_root run_defs)
  from second_request_hit_iff [OF a' [unfolded first_request_root_def] b', of 3 4 "[]"]
  have "cacheStatus (proxy href_example origin_ok (Some ''example.test'') 3 4 [] s1') \<noteq> Some HIT"
    by (auto simp: formattedUrl_root href_example_def)
  moreover have "cacheStatus (proxy href_example origin_ok (Some ''example.test'') 3 4 []
       (after first_request_root (newCache 300 300))) = Some MISS"
    by (simp add: first_request_root_def proxy_defs formattedUrl_root run_defs)
  ultimately have 2: "cacheStatus first_request_root = Some MISS \<and>
     cacheStatus (proxy href_example origin_ok (Some ''example.test'') 3 4 []
       (after first_request_root (newCache 300 300))) = Some MISS"
    by (simp add: a' b' cacheStatus_def after_def)
  from 1 2 show ?thesis by simp
qed

end
